theory Spec2Isabelle
  imports
    Complex_Main
    "HOL-Library.Multiset"
    "HOL-Library.Char_ord"
    "HOL-Library.List_Lexorder"
begin

section \<open>The bounded-concurrency executor (class Concurrency of src/utils.js)\<close>

text \<open>
  A task is a zero-argument function returning a promise. The model covers deterministic
  tasks whose promise settles: task \<open>i\<close> is given by the way every invocation of it
  settles, \<open>Inr v\<close> when it resolves with \<open>v\<close> and \<open>Inl e\<close> when it rejects with (or
  throws) \<open>e\<close>. The order in which the run time resumes the suspended workers and
  passes rejections on is not fixed by the program: it is a parameter of the model,
  the schedule.
\<close>

datatype 'e reason = TaskFailure 'e | TypeError

datatype ('e, 'a) settlement = Resolved "'a option list" | Rejected "'e reason"

text \<open>
  The three private fields of the class, and the bookkeeping of the JavaScript run time
  that the claims speak about:
  \<^item> \<open>executing\<close>: the slots whose task has been invoked and whose promise is still
    pending, one entry per worker that is suspended at the first \<open>await\<close> of \<open>#runOne\<close>;
  \<^item> \<open>frames\<close>: for each of these workers, at the same position, the number of calls
    of \<open>#runOne\<close> that are suspended at \<open>await this.#runOne(nextIndex)\<close> around the one
    that awaits the task (none for a worker started by \<open>run\<close>, one more with every
    slot the worker claims);
  \<^item> \<open>invoked\<close>: the slots whose task has been called, in the order of the calls;
  \<^item> \<open>written\<close>: the slots assigned in \<open>#results\<close>, in the order of the assignments;
  \<^item> \<open>settled\<close>: the slots of the awaited promises, in the order in which the workers
    saw them settle;
  \<^item> \<open>unwinding\<close>: the rejections on their way from the call of \<open>#runOne\<close> that saw
    its task fail to \<open>Promise.all\<close>, each with the number of enclosing calls it has
    still to leave, the slot of the task and the error;
  \<^item> \<open>observed\<close>: the slots of the rejections that have reached \<open>Promise.all\<close>, in the
    order in which they reached it;
  \<^item> \<open>rejection\<close>: the rejection of \<open>Promise.all\<close>, which is the first that reached it.
  \<open>results\<close> is a JavaScript array, which may have holes: \<open>None\<close> is a hole (read as
  \<open>undefined\<close> by the spread of the last line of \<open>run\<close>).
\<close>

record ('e, 'a) concurrency =
  promises :: "('e + 'a) list"
  results :: "'a option list"
  index :: nat
  executing :: "nat list"
  frames :: "nat list"
  invoked :: "nat list"
  written :: "nat list"
  settled :: "nat list"
  unwinding :: "(nat \<times> nat \<times> 'e reason) list"
  observed :: "nat list"
  rejection :: "'e reason option"

definition new_Concurrency :: "('e + 'a) list \<Rightarrow> ('e, 'a) concurrency" where
  "new_Concurrency ps =
     \<lparr>promises = ps, results = [], index = 0, executing = [], frames = [], invoked = [],
      written = [], settled = [], unwinding = [], observed = [], rejection = None\<rparr>"

text \<open>\<open>this.#promises[index]()\<close>: calling a slot outside the array is a TypeError.\<close>

definition call :: "('e + 'a) list \<Rightarrow> nat \<Rightarrow> 'e reason + 'a" where
  "call ps i =
     (if i < length ps
      then (case ps ! i of Inl e \<Rightarrow> Inl (TaskFailure e) | Inr v \<Rightarrow> Inr v)
      else Inl TypeError)"

definition invoke :: "nat \<Rightarrow> ('e, 'a) concurrency \<Rightarrow> ('e, 'a) concurrency" where
  "invoke i c = (if i < length (promises c) then c\<lparr>invoked := invoked c @ [i]\<rparr> else c)"

text \<open>\<open>this.#results[index] = result\<close>: an assignment beyond the end extends the array.\<close>

definition assign :: "'a option list \<Rightarrow> nat \<Rightarrow> 'a \<Rightarrow> 'a option list" where
  "assign xs i v =
     (if i < length xs then xs[i := Some v]
      else xs @ replicate (i - length xs) None @ [Some v])"

definition remove_nth :: "nat \<Rightarrow> 'b list \<Rightarrow> 'b list" where
  "remove_nth k xs = take k xs @ drop (Suc k) xs"

text \<open>The enclosing calls of the worker at position \<open>k\<close>.\<close>

definition depth :: "('e, 'a) concurrency \<Rightarrow> nat \<Rightarrow> nat" where
  "depth c k = (if k < length (frames c) then frames c ! k else 0)"

text \<open>
  \<open>#runOne(index)\<close> up to its \<open>await\<close>: the task is called at once and the worker is
  suspended on its promise. This is what each iteration of the loop of \<open>run\<close> pushes.
\<close>

definition runOne :: "nat \<Rightarrow> ('e, 'a) concurrency \<Rightarrow> ('e, 'a) concurrency" where
  "runOne i c = (invoke i c)\<lparr>executing := executing c @ [i], frames := frames c @ [0]\<rparr>"

text \<open>
  \<open>#runOne\<close> from its \<open>await\<close> on, for the worker at position \<open>k\<close> of \<open>executing\<close>,
  when the promise it awaits settles. A rejection is thrown by the \<open>await\<close> and ends the
  worker: the promise of this call of \<open>#runOne\<close> is rejected, and the rejection has the
  enclosing calls to leave before it reaches \<open>Promise.all\<close> (see \<open>unwind\<close>). Otherwise the
  result is stored, and the worker either claims the slot after the cursor (the
  recursive call, which calls that task at once and suspends again, one call deeper)
  or returns.
\<close>

definition resume :: "nat \<Rightarrow> ('e, 'a) concurrency \<Rightarrow> ('e, 'a) concurrency" where
  "resume k c =
     (let i = executing c ! k in
      case call (promises c) i of
        Inl e \<Rightarrow>
          c\<lparr>executing := remove_nth k (executing c),
            frames := remove_nth k (frames c),
            settled := settled c @ [i],
            unwinding := unwinding c @ [(depth c k, i, e)]\<rparr>
      | Inr result \<Rightarrow>
          let c1 = c\<lparr>results := assign (results c) i result,
                     written := written c @ [i],
                     settled := settled c @ [i]\<rparr>
          in if int (index c1) < int (length (promises c1)) - 1
             then let c2 = c1\<lparr>index := index c1 + 1\<rparr>;
                      nextIndex = index c2
                  in if nextIndex < length (promises c2)
                     then (invoke nextIndex c2)
                            \<lparr>executing := (executing c2)[k := nextIndex],
                             frames := (frames c2)[k := Suc (depth c2 k)]\<rparr>
                     else c2\<lparr>executing := remove_nth k (executing c2),
                             frames := remove_nth k (frames c2)\<rparr>
             else c1\<lparr>executing := remove_nth k (executing c1),
                     frames := remove_nth k (frames c1)\<rparr>)"

text \<open>
  One step of the rejection at position \<open>j\<close> of \<open>unwinding\<close>. While it has enclosing calls
  to leave, the innermost of them, suspended at \<open>await this.#runOne(nextIndex)\<close>
  (line 148), throws it again, and the promise of that call is rejected. With none
  left, the rejected promise is the one that \<open>run\<close> pushed: the rejection reaches
  \<open>Promise.all\<close> (line 128), which rejects with it unless it has rejected before.
\<close>

definition unwind :: "nat \<Rightarrow> ('e, 'a) concurrency \<Rightarrow> ('e, 'a) concurrency" where
  "unwind j c =
     (case unwinding c ! j of
        (0, i, e) \<Rightarrow>
          c\<lparr>unwinding := remove_nth j (unwinding c),
            observed := observed c @ [i],
            rejection := (case rejection c of None \<Rightarrow> Some e | Some r \<Rightarrow> Some r)\<rparr>
      | (Suc f, i, e) \<Rightarrow> c\<lparr>unwinding := (unwinding c)[j := (f, i, e)]\<rparr>)"

text \<open>
  The schedule: an entry \<open>k\<close> below the number of suspended workers resumes the worker
  at position \<open>k\<close>; above, it names a rejection under way, at position \<open>k\<close> less the
  number of suspended workers. An entry that names neither, or a schedule that is used
  up, resumes the first suspended worker, and when there is none takes the first
  rejection under way one step further. Every order in which the run time can take
  these steps is the run of some schedule.
\<close>

definition step :: "nat list \<Rightarrow> ('e, 'a) concurrency \<Rightarrow> ('e, 'a) concurrency" where
  "step sched c =
     (case sched of
        [] \<Rightarrow> if executing c \<noteq> [] then resume 0 c else unwind 0 c
      | k # _ \<Rightarrow>
          if k < length (executing c) then resume k c
          else if k - length (executing c) < length (unwinding c)
          then unwind (k - length (executing c)) c
          else if executing c \<noteq> [] then resume 0 c else unwind 0 c)"

text \<open>
  \<open>await Promise.all(executing)\<close>, and the workers that go on after a rejection: steps
  are taken until no worker is suspended and no rejection is under way.
\<close>

function drain :: "nat list \<Rightarrow> ('e, 'a) concurrency \<Rightarrow> ('e, 'a) concurrency" where
  "drain sched c =
     (if executing c = [] \<and> unwinding c = [] then c else drain (tl sched) (step sched c))"
  by pat_completeness auto
termination
proof -
  let ?R = "measures [\<lambda>(sched :: nat list, c :: ('a, 'b) concurrency). length (promises c) - index c,
                      \<lambda>(sched, c). length (executing c),
                      \<lambda>(sched, c). length (unwinding c),
                      \<lambda>(sched, c). sum_list (map fst (unwinding c))]"
  have resumed: "((s', resume k c), (s, c)) \<in> ?R"
    if "k < length (executing c)" for s s' k and c :: "('a, 'b) concurrency"
    using that
    by (auto simp: resume_def remove_nth_def invoke_def Let_def split: sum.splits)
  have unwound: "((s', unwind j c), (s, c)) \<in> ?R"
    if "j < length (unwinding c)" for s s' j and c :: "('a, 'b) concurrency"
  proof (cases "unwinding c ! j")
    case (fields f i e)
    show ?thesis
    proof (cases f)
      case 0
      with fields that show ?thesis by (auto simp add: unwind_def remove_nth_def)
    next
      case (Suc f')
      with fields that have "0 < sum_list (map fst (unwinding c))"
        by (metis fst_conv length_map nth_map nth_mem sum_list_eq_0_iff not_gr_zero old.nat.distinct(2))
      with Suc fields that show ?thesis
        by (simp add: unwind_def map_update sum_list_update)
    qed
  qed
  have stepped: "((tl s, step s c), (s, c)) \<in> ?R"
    if "\<not> (executing c = [] \<and> unwinding c = [])" for s and c :: "('a, 'b) concurrency"
  proof -
    from that have "(\<exists>k<length (executing c). step s c = resume k c) \<or>
        (\<exists>j<length (unwinding c). step s c = unwind j c)"
      by (auto simp: step_def split: list.splits)
    then show ?thesis
    proof (elim disjE exE conjE)
      fix k assume k': "k < length (executing c)" and k: "step s c = resume k c"
      from k' have "((tl s, resume k c), (s, c)) \<in> ?R" by (rule resumed)
      then show ?thesis by (simp only: k)
    next
      fix j assume j': "j < length (unwinding c)" and j: "step s c = unwind j c"
      from j' have "((tl s, unwind j c), (s, c)) \<in> ?R" by (rule unwound)
      then show ?thesis by (simp only: j)
    qed
  qed
  show ?thesis
  proof (relation ?R)
    show "wf ?R" by simp
  qed (rule stepped)
qed

text \<open>The states a run goes through, the first one first.\<close>

function trace :: "nat list \<Rightarrow> ('e, 'a) concurrency \<Rightarrow> ('e, 'a) concurrency list" where
  "trace sched c =
     (if executing c = [] \<and> unwinding c = [] then [c]
      else c # trace (tl sched) (step sched c))"
  by pat_completeness auto
termination
proof -
  let ?R = "measures [\<lambda>(sched :: nat list, c :: ('a, 'b) concurrency). length (promises c) - index c,
                      \<lambda>(sched, c). length (executing c),
                      \<lambda>(sched, c). length (unwinding c),
                      \<lambda>(sched, c). sum_list (map fst (unwinding c))]"
  have resumed: "((s', resume k c), (s, c)) \<in> ?R"
    if "k < length (executing c)" for s s' k and c :: "('a, 'b) concurrency"
    using that
    by (auto simp: resume_def remove_nth_def invoke_def Let_def split: sum.splits)
  have unwound: "((s', unwind j c), (s, c)) \<in> ?R"
    if "j < length (unwinding c)" for s s' j and c :: "('a, 'b) concurrency"
  proof (cases "unwinding c ! j")
    case (fields f i e)
    show ?thesis
    proof (cases f)
      case 0
      with fields that show ?thesis by (auto simp add: unwind_def remove_nth_def)
    next
      case (Suc f')
      with fields that have "0 < sum_list (map fst (unwinding c))"
        by (metis fst_conv length_map nth_map nth_mem sum_list_eq_0_iff not_gr_zero old.nat.distinct(2))
      with Suc fields that show ?thesis
        by (simp add: unwind_def map_update sum_list_update)
    qed
  qed
  have stepped: "((tl s, step s c), (s, c)) \<in> ?R"
    if "\<not> (executing c = [] \<and> unwinding c = [])" for s and c :: "('a, 'b) concurrency"
  proof -
    from that have "(\<exists>k<length (executing c). step s c = resume k c) \<or>
        (\<exists>j<length (unwinding c). step s c = unwind j c)"
      by (auto simp: step_def split: list.splits)
    then show ?thesis
    proof (elim disjE exE conjE)
      fix k assume k': "k < length (executing c)" and k: "step s c = resume k c"
      from k' have "((tl s, resume k c), (s, c)) \<in> ?R" by (rule resumed)
      then show ?thesis by (simp only: k)
    next
      fix j assume j': "j < length (unwinding c)" and j: "step s c = unwind j c"
      from j' have "((tl s, unwind j c), (s, c)) \<in> ?R" by (rule unwound)
      then show ?thesis by (simp only: j)
    qed
  qed
  show ?thesis
  proof (relation ?R)
    show "wf ?R" by simp
  qed (rule stepped)
qed

text \<open>The loop of \<open>run\<close>: \<open>for (let i = 0; i < size; i++) executing.push(this.#runOne(i))\<close>.\<close>

definition start :: "int \<Rightarrow> ('e, 'a) concurrency \<Rightarrow> ('e, 'a) concurrency" where
  "start batchSize c =
     (let size = min batchSize (int (length (promises c)))
      in fold runOne [0..<nat size] c)"

definition run :: "int \<Rightarrow> nat list \<Rightarrow> ('e, 'a) concurrency \<Rightarrow> ('e, 'a) concurrency" where
  "run batchSize sched c = drain sched (start batchSize c)"

text \<open>
  What the promise returned by \<open>run\<close> settles with: the rejection of \<open>Promise.all\<close> if
  there is one, the copy of \<open>#results\<close> otherwise.
\<close>

definition outcome :: "('e, 'a) concurrency \<Rightarrow> ('e, 'a) settlement" where
  "outcome c = (case rejection c of Some e \<Rightarrow> Rejected e | None \<Rightarrow> Resolved (results c))"


section \<open>The retrying client (class HttpClient of src/utils.js)\<close>

text \<open>
  The options of the constructor are optional numbers: \<open>None\<close> is a missing option.
  \<open>options.retries || 0\<close> keeps a number that is not zero.
\<close>

record HttpClient_options =
  opt_retries :: "int option"
  opt_timeout :: "int option"

record HttpClient =
  retries :: int
  timeout :: int

definition new_HttpClient :: "HttpClient_options \<Rightarrow> HttpClient" where
  "new_HttpClient options =
     \<lparr>retries = (case opt_retries options of None \<Rightarrow> 0 | Some r \<Rightarrow> if r = 0 then 0 else r),
      timeout = (case opt_timeout options of None \<Rightarrow> 10000 | Some t \<Rightarrow> if t = 0 then 10000 else t)\<rparr>"

text \<open>
  What \<open>fetch\<close> gives back, as far as \<open>get\<close> looks at it. The network is a parameter:
  \<open>fetch url timeout k\<close> is the way the \<open>k\<close>-th call (from 0) of
  \<open>fetch(url, {signal: AbortSignal.timeout(timeout)})\<close> settles, \<open>Inl x\<close> when it rejects
  with \<open>x\<close> (a network failure, or the abort at the deadline). \<open>json\<close> is the way
  \<open>response.json()\<close> settles.
\<close>

record ('x, 'a) response =
  ok :: bool
  status :: int
  statusText :: string
  json :: "'x + 'a"

type_synonym ('x, 'a) fetch = "string \<Rightarrow> int \<Rightarrow> nat \<Rightarrow> 'x + ('x, 'a) response"

text \<open>
  The errors caught by \<open>get\<close>: its own \<open>new Error(`HTTP ${status}: ${statusText} on "${url}"`)\<close>,
  kept as the three values of the message, and anything thrown by \<open>fetch\<close> or \<open>json\<close>.
\<close>

datatype 'x error = HttpStatusError int string string | Thrown 'x

text \<open>The values of the message of \<open>console.warn\<close>: attempt, attempts in all, URL.\<close>

datatype warning = Warning int int string

datatype ('x, 'a) completion = Returned 'a | ReturnedUndefined | Threw "'x error"

text \<open>What is observable of a call of \<open>get\<close>: the calls of \<open>fetch\<close> and the warnings.\<close>

record console =
  fetches :: nat
  warnings :: "warning list"

text \<open>The body of the \<open>try\<close> block, given the way the call of \<open>fetch\<close> settles.\<close>

definition attempt :: "string \<Rightarrow> 'x + ('x, 'a) response \<Rightarrow> 'x error + 'a" where
  "attempt url fetched =
     (case fetched of
        Inl x \<Rightarrow> Inl (Thrown x)
      | Inr response \<Rightarrow>
          if \<not> ok response
          then Inl (HttpStatusError (status response) (statusText response) url)
          else (case json response of Inl x \<Rightarrow> Inl (Thrown x) | Inr data \<Rightarrow> Inr data))"

text \<open>The loop \<open>for (let i = 0; i < retries + 1; i++)\<close> from the iteration \<open>i\<close> on.\<close>

function get_loop ::
  "HttpClient \<Rightarrow> ('x, 'a) fetch \<Rightarrow> string \<Rightarrow> nat \<Rightarrow> console \<Rightarrow> ('x, 'a) completion \<times> console"
where
  "get_loop this fetch url i con =
     (if int i < retries this + 1
      then (case attempt url (fetch url (timeout this) i) of
              Inr data \<Rightarrow> (Returned data, con\<lparr>fetches := Suc (fetches con)\<rparr>)
            | Inl error \<Rightarrow>
                if int i < retries this
                then get_loop this fetch url (Suc i)
                       (con\<lparr>fetches := Suc (fetches con),
                            warnings := warnings con @ [Warning (int i + 1) (retries this + 1) url]\<rparr>)
                else (Threw error, con\<lparr>fetches := Suc (fetches con)\<rparr>))
      else (ReturnedUndefined, con))"
  by pat_completeness auto
termination
  by (relation "measure (\<lambda>(this, fetch, url, i, con). nat (retries this + 1 - int i))") auto

definition get ::
  "HttpClient \<Rightarrow> ('x, 'a) fetch \<Rightarrow> string \<Rightarrow> ('x, 'a) completion \<times> console" where
  "get this fetch url = get_loop this fetch url 0 \<lparr>fetches = 0, warnings = []\<rparr>"

declare get_loop.simps [simp del]

section \<open>Payload to lines (dataToLines of src/utils.js)\<close>

text \<open>
  A rate as the payload can hold it: a number, or \<open>null\<close> or \<open>undefined\<close>. A finite
  number is given by its value (\<open>-0\<close> is not told apart from \<open>0\<close>: both are falsy).
\<close>

datatype rate = Undefined | Null | NaN | Infinity | NegInfinity | Number rat

text \<open>
  \<open>data.rates\<close> is an object: \<open>Object.entries\<close> lists its own properties in property
  order, each key once. It is given as that list.
\<close>

record payload =
  date :: string
  rates :: "(string \<times> rate) list"

record options =
  quotes :: "string list"

text \<open>The operand of \<open>||\<close> is replaced when it is falsy.\<close>

definition falsy :: "rate \<Rightarrow> bool" where
  "falsy r \<longleftrightarrow> (case r of Undefined \<Rightarrow> True | Null \<Rightarrow> True | NaN \<Rightarrow> True
                 | Number x \<Rightarrow> x = 0 | _ \<Rightarrow> False)"

text \<open>
  The conversion of a value to a string inside a template literal. The digits of a
  finite number other than zero are those of the run time (the shortest decimal that
  reads back as the same floating-point number): that conversion is the parameter
  \<open>numberToString\<close>.
\<close>

definition toString :: "(rat \<Rightarrow> string) \<Rightarrow> rate \<Rightarrow> string" where
  "toString numberToString r =
     (case r of
        Undefined \<Rightarrow> ''undefined''
      | Null \<Rightarrow> ''null''
      | NaN \<Rightarrow> ''NaN''
      | Infinity \<Rightarrow> ''Infinity''
      | NegInfinity \<Rightarrow> ''-Infinity''
      | Number x \<Rightarrow> if x = 0 then ''0'' else numberToString x)"

text \<open>
  Modelled from the spec: \<open>String.prototype.localeCompare\<close>, a built-in of the run time
  whose order depends on the locale of the host. The spec says that the lines are
  sorted lexicographically ascending by quote code: the comparison is the lexicographic
  one on the characters of the two strings, which is what every locale gives on the
  upper-case ASCII currency codes of this program.
\<close>

definition localeCompare :: "string \<Rightarrow> string \<Rightarrow> int" where
  "localeCompare a b = (if a < b then - 1 else if a = b then 0 else 1)"

text \<open>
  \<open>Array.prototype.sort\<close> with a comparison function: the sort is stable, and with a
  consistent comparison its result is determined. Insertion from the right is such a
  sort: an element goes before the first one that it does not compare greater than.
\<close>

fun insert_sorted :: "('b \<Rightarrow> 'b \<Rightarrow> int) \<Rightarrow> 'b \<Rightarrow> 'b list \<Rightarrow> 'b list" where
  "insert_sorted compareFn x [] = [x]"
| "insert_sorted compareFn x (y # ys) =
     (if compareFn x y \<le> 0 then x # y # ys else y # insert_sorted compareFn x ys)"

definition sort_array :: "('b \<Rightarrow> 'b \<Rightarrow> int) \<Rightarrow> 'b list \<Rightarrow> 'b list" where
  "sort_array compareFn xs = foldr (insert_sorted compareFn) xs []"

definition dataToLines ::
  "(rat \<Rightarrow> string) \<Rightarrow> payload \<Rightarrow> options \<Rightarrow> (string \<times> string) list" where
  "dataToLines numberToString data options =
     map (\<lambda>(quote, rate).
            (quote, date data @ '','' @ (if falsy rate then [] else toString numberToString rate)))
       (sort_array (\<lambda>(prevQuote, _) (nextQuote, _). localeCompare prevQuote nextQuote)
          (filter (\<lambda>(quote, _). quote \<in> set (quotes options)) (rates data)))"

declare drain.simps [simp del] trace.simps [simp del]

section \<open>Notions used to state the properties of a run of the executor\<close>

definition succeeded :: "('e + 'a) list \<Rightarrow> nat \<Rightarrow> bool" where
  "succeeded ps i \<longleftrightarrow> \<not> isl (ps ! i)"

definition first_failure :: "('e + 'a) list \<Rightarrow> nat list \<Rightarrow> 'e reason option" where
  "first_failure ps done =
     (case List.find (\<lambda>i. \<not> succeeded ps i) done of
        None \<Rightarrow> None
      | Some i \<Rightarrow> (case ps ! i of Inl e \<Rightarrow> Some (TaskFailure e) | Inr _ \<Rightarrow> None))"

definition invariant :: "('e + 'a) list \<Rightarrow> nat \<Rightarrow> ('e, 'a) concurrency \<Rightarrow> bool" where
  "invariant ps s c \<longleftrightarrow>
     promises c = ps \<and>
     (index c < length ps \<or> index c = 0) \<and>
     invoked c = [0..<s] @ [1..<Suc (index c)] \<and>
     s \<le> length ps \<and>
     set (executing c) \<subseteq> {..<length ps} \<and>
     set (settled c) \<subseteq> {..<length ps} \<and>
     set (invoked c) \<subseteq> set (executing c) \<union> set (settled c) \<and>
     length (executing c) \<le> s \<and>
     (Suc (index c) < length ps \<and> (\<forall>i\<in>set (settled c). succeeded ps i)
        \<longrightarrow> length (executing c) = s) \<and>
     written c = filter (succeeded ps) (settled c) \<and>
     rejection c = first_failure ps (observed c) \<and>
     length (results c) \<le> length ps \<and>
     (\<forall>i\<in>set (written c). i < length (results c) \<and> ps ! i = Inr (the (results c ! i)) \<and> results c ! i \<noteq> None)"

definition failures :: "('e + 'a) list \<Rightarrow> ('e, 'a) concurrency \<Rightarrow> bool" where
  "failures ps c \<longleftrightarrow>
     (\<forall>(f, i, e)\<in>set (unwinding c).
        i \<in> set (settled c) \<and> (\<exists>x. ps ! i = Inl x \<and> e = TaskFailure x)) \<and>
     (\<forall>i\<in>set (observed c). i \<in> set (settled c) \<and> \<not> succeeded ps i) \<and>
     (\<forall>i\<in>set (settled c). \<not> succeeded ps i \<longrightarrow>
        i \<in> set (observed c) \<or> i \<in> (\<lambda>(f, i, e). i) ` set (unwinding c))"

section \<open>Properties of the executor\<close>

lemma length_remove_nth: "k < length xs \<Longrightarrow> length (remove_nth k xs) = length xs - 1"
  by (simp add: remove_nth_def)

lemma set_remove_nth_subset: "set (remove_nth k xs) \<subseteq> set xs"
  unfolding remove_nth_def by (auto dest: in_set_takeD in_set_dropD)

lemma set_remove_nth_insert: "k < length xs \<Longrightarrow> set xs \<subseteq> insert (xs ! k) (set (remove_nth k xs))"
proof -
  assume k: "k < length xs"
  then have "xs = take k xs @ xs ! k # drop (Suc k) xs" by (rule id_take_nth_drop)
  then have "set xs = set (take k xs @ xs ! k # drop (Suc k) xs)" by simp
  then show ?thesis by (auto simp: remove_nth_def)
qed

lemma set_update_insert: "k < length xs \<Longrightarrow> set xs \<subseteq> insert (xs ! k) (set (xs[k := y]))"
proof
  fix x assume k: "k < length xs" and "x \<in> set xs"
  then obtain j where j: "j < length xs" "xs ! j = x" by (auto simp: in_set_conv_nth)
  show "x \<in> insert (xs ! k) (set (xs[k := y]))"
  proof (cases "j = k")
    case True with j show ?thesis by simp
  next
    case False
    with j have "xs[k := y] ! j = x" by simp
    with j have "x \<in> set (xs[k := y])" by (metis length_list_update nth_mem)
    then show ?thesis by simp
  qed
qed

lemma resume_fail:
  assumes "executing c ! k < length (promises c)" "promises c ! (executing c ! k) = Inl e"
  shows "resume k c =
     c\<lparr>executing := remove_nth k (executing c),
       frames := remove_nth k (frames c),
       settled := settled c @ [executing c ! k],
       unwinding := unwinding c @ [(depth c k, executing c ! k, TaskFailure e)]\<rparr>"
  using assms by (simp add: resume_def call_def Let_def)

lemma resume_claim:
  assumes "executing c ! k < length (promises c)" "promises c ! (executing c ! k) = Inr v"
    "Suc (index c) < length (promises c)"
  shows "resume k c =
     c\<lparr>results := assign (results c) (executing c ! k) v,
       written := written c @ [executing c ! k],
       settled := settled c @ [executing c ! k],
       index := Suc (index c),
       invoked := invoked c @ [Suc (index c)],
       executing := (executing c)[k := Suc (index c)],
       frames := (frames c)[k := Suc (depth c k)]\<rparr>"
  using assms by (simp add: resume_def call_def invoke_def depth_def Let_def)

lemma resume_last:
  assumes "executing c ! k < length (promises c)" "promises c ! (executing c ! k) = Inr v"
    "\<not> Suc (index c) < length (promises c)"
  shows "resume k c =
     c\<lparr>results := assign (results c) (executing c ! k) v,
       written := written c @ [executing c ! k],
       settled := settled c @ [executing c ! k],
       executing := remove_nth k (executing c),
       frames := remove_nth k (frames c)\<rparr>"
  using assms by (auto simp add: resume_def call_def invoke_def Let_def)

lemma unwind_deliver:
  assumes "unwinding c ! j = (0, i, e)"
  shows "unwind j c =
     c\<lparr>unwinding := remove_nth j (unwinding c),
       observed := observed c @ [i],
       rejection := (case rejection c of None \<Rightarrow> Some e | Some r \<Rightarrow> Some r)\<rparr>"
  using assms by (simp add: unwind_def)

lemma unwind_frame:
  assumes "unwinding c ! j = (Suc f, i, e)"
  shows "unwind j c = c\<lparr>unwinding := (unwinding c)[j := (f, i, e)]\<rparr>"
  using assms by (simp add: unwind_def)

lemma length_assign: "length (assign xs i v) = max (length xs) (Suc i)"
  by (auto simp: assign_def)

lemma nth_assign_same: "assign xs i v ! i = Some v"
  by (auto simp: assign_def nth_append)

lemma nth_assign_other: "j \<noteq> i \<Longrightarrow> j < length xs \<Longrightarrow> assign xs i v ! j = xs ! j"
  by (auto simp: assign_def nth_append)

lemma first_failure_None: "first_failure ps xs = None \<longleftrightarrow> (\<forall>i\<in>set xs. succeeded ps i)"
  by (induction xs) (auto simp: first_failure_def succeeded_def split: sum.splits)

lemma first_failure_snoc:
  "first_failure ps (xs @ [i]) =
     (case first_failure ps xs of
        Some r \<Rightarrow> Some r
      | None \<Rightarrow> (case ps ! i of Inl e \<Rightarrow> Some (TaskFailure e) | Inr _ \<Rightarrow> None))"
  by (induction xs) (auto simp: first_failure_def succeeded_def split: sum.splits)

lemma invariant_resume:
  assumes inv: "invariant ps s c" and k: "k < length (executing c)"
  shows "invariant ps s (resume k c)"
proof -
  let ?i = "executing c ! k"
  have ps: "promises c = ps"
    and idx: "index c < length ps \<or> index c = 0"
    and invk: "invoked c = [0..<s] @ [1..<Suc (index c)]"
    and s: "s \<le> length ps"
    and ex: "set (executing c) \<subseteq> {..<length ps}"
    and st: "set (settled c) \<subseteq> {..<length ps}"
    and cover: "set (invoked c) \<subseteq> set (executing c) \<union> set (settled c)"
    and bound: "length (executing c) \<le> s"
    and live: "Suc (index c) < length ps \<and> (\<forall>i\<in>set (settled c). succeeded ps i)
        \<longrightarrow> length (executing c) = s"
    and wr: "written c = filter (succeeded ps) (settled c)"
    and rej: "rejection c = first_failure ps (observed c)"
    and len: "length (results c) \<le> length ps"
    and res: "\<forall>i\<in>set (written c). i < length (results c) \<and> ps ! i = Inr (the (results c ! i)) \<and> results c ! i \<noteq> None"
    by (insert inv [unfolded invariant_def]) (elim conjE, assumption)+
  from k have mem: "?i \<in> set (executing c)" by simp
  with ex have i: "?i < length ps" by auto
  from k have rm: "set (executing c) \<subseteq> insert ?i (set (remove_nth k (executing c)))"
    by (rule set_remove_nth_insert)
  have rm': "set (remove_nth k (executing c)) \<subseteq> set (executing c)"
    by (rule set_remove_nth_subset)
  have store: "length (assign (results c) ?i v) \<le> length ps \<and>
      (\<forall>j\<in>set (written c @ [?i]). j < length (assign (results c) ?i v)
          \<and> ps ! j = Inr (the (assign (results c) ?i v ! j)) \<and> assign (results c) ?i v ! j \<noteq> None)"
    if v: "ps ! ?i = Inr v" for v
  proof
    show "length (assign (results c) ?i v) \<le> length ps"
      using len i by (simp add: length_assign)
    show "\<forall>j\<in>set (written c @ [?i]). j < length (assign (results c) ?i v)
          \<and> ps ! j = Inr (the (assign (results c) ?i v ! j)) \<and> assign (results c) ?i v ! j \<noteq> None"
    proof
      fix j assume "j \<in> set (written c @ [?i])"
      then have j: "j = ?i \<or> j \<in> set (written c)" by auto
      show "j < length (assign (results c) ?i v)
          \<and> ps ! j = Inr (the (assign (results c) ?i v ! j)) \<and> assign (results c) ?i v ! j \<noteq> None"
      proof (cases "j = ?i")
        case True
        then show ?thesis using v by (simp add: length_assign nth_assign_same)
      next
        case False
        with j have "j \<in> set (written c)" by simp
        with res have "j < length (results c)" "ps ! j = Inr (the (results c ! j))" "results c ! j \<noteq> None"
          by auto
        then show ?thesis using False by (simp add: length_assign nth_assign_other)
      qed
    qed
  qed
  show ?thesis
  proof (cases "ps ! ?i")
    case (Inl e)
    then have r: "resume k c =
       c\<lparr>executing := remove_nth k (executing c),
         frames := remove_nth k (frames c),
         settled := settled c @ [?i],
         unwinding := unwinding c @ [(depth c k, ?i, TaskFailure e)]\<rparr>"
      using i ps by (simp add: resume_fail)
    from Inl have nots: "\<not> succeeded ps ?i" by (simp add: succeeded_def)
    have c1: "promises (resume k c) = ps" by (simp add: r ps)
    have c2: "index (resume k c) < length ps \<or> index (resume k c) = 0" using idx by (simp add: r)
    have c3: "invoked (resume k c) = [0..<s] @ [1..<Suc (index (resume k c))]"
      by (simp add: r invk)
    have c5: "set (executing (resume k c)) \<subseteq> {..<length ps}"
      using rm' ex by (auto simp: r)
    have c6: "set (settled (resume k c)) \<subseteq> {..<length ps}"
      using st i by (auto simp: r)
    have c7: "set (invoked (resume k c)) \<subseteq> set (executing (resume k c)) \<union> set (settled (resume k c))"
      using cover rm by (auto simp: r)
    have c8: "length (executing (resume k c)) \<le> s" using bound k by (simp add: r length_remove_nth)
    have c9: "Suc (index (resume k c)) < length ps \<and> (\<forall>i\<in>set (settled (resume k c)). succeeded ps i)
        \<longrightarrow> length (executing (resume k c)) = s"
      using nots by (simp add: r)
    have c10: "written (resume k c) = filter (succeeded ps) (settled (resume k c))"
      using wr nots by (simp add: r)
    have c11: "rejection (resume k c) = first_failure ps (observed (resume k c))"
      using rej by (simp add: r)
    have c12: "length (results (resume k c)) \<le> length ps"
      using len by (simp add: r)
    have c13: "\<forall>j\<in>set (written (resume k c)). j < length (results (resume k c))
          \<and> ps ! j = Inr (the (results (resume k c) ! j)) \<and> results (resume k c) ! j \<noteq> None"
      using res by (simp add: r)
    show ?thesis
      unfolding invariant_def using c1 c2 c3 s c5 c6 c7 c8 c9 c10 c11 c12 c13 by blast
  next
    case (Inr v)
    from Inr have succ: "succeeded ps ?i" by (simp add: succeeded_def)
    show ?thesis
    proof (cases "Suc (index c) < length ps")
      case True
      then have r: "resume k c =
         c\<lparr>results := assign (results c) ?i v,
           written := written c @ [?i],
           settled := settled c @ [?i],
           index := Suc (index c),
           invoked := invoked c @ [Suc (index c)],
           executing := (executing c)[k := Suc (index c)],
           frames := (frames c)[k := Suc (depth c k)]\<rparr>"
        using i ps Inr by (simp add: resume_claim)
      have up: "set (executing c) \<subseteq> insert ?i (set ((executing c)[k := Suc (index c)]))"
        using k by (rule set_update_insert)
      have new: "Suc (index c) \<in> set ((executing c)[k := Suc (index c)])"
        using k by (simp add: set_update_memI)
      have up': "set ((executing c)[k := Suc (index c)]) \<subseteq> insert (Suc (index c)) (set (executing c))"
        by (rule set_update_subset_insert)
      have c1: "promises (resume k c) = ps" by (simp add: r ps)
      have c2: "index (resume k c) < length ps \<or> index (resume k c) = 0" using True by (simp add: r)
      have c3: "invoked (resume k c) = [0..<s] @ [1..<Suc (index (resume k c))]"
        by (simp add: r invk)
      have c5: "set (executing (resume k c)) \<subseteq> {..<length ps}"
        using up' ex True by (auto simp: r)
      have c6: "set (settled (resume k c)) \<subseteq> {..<length ps}"
        using st i by (auto simp: r)
      have c7: "set (invoked (resume k c)) \<subseteq> set (executing (resume k c)) \<union> set (settled (resume k c))"
        using cover up new by (auto simp: r)
      have c8: "length (executing (resume k c)) \<le> s" using bound by (simp add: r)
      have c9: "Suc (index (resume k c)) < length ps \<and> (\<forall>i\<in>set (settled (resume k c)). succeeded ps i)
        \<longrightarrow> length (executing (resume k c)) = s"
        using live True by (simp add: r)
      have c10: "written (resume k c) = filter (succeeded ps) (settled (resume k c))"
        using wr succ by (simp add: r)
      have c11: "rejection (resume k c) = first_failure ps (observed (resume k c))"
        using rej by (simp add: r)
      have c12: "length (results (resume k c)) \<le> length ps"
        and c13: "\<forall>j\<in>set (written (resume k c)). j < length (results (resume k c))
          \<and> ps ! j = Inr (the (results (resume k c) ! j)) \<and> results (resume k c) ! j \<noteq> None"
        using store [OF Inr] by (simp_all add: r)
      show ?thesis
        unfolding invariant_def using c1 c2 c3 s c5 c6 c7 c8 c9 c10 c11 c12 c13 by blast
    next
      case False
      then have r: "resume k c =
         c\<lparr>results := assign (results c) ?i v,
           written := written c @ [?i],
           settled := settled c @ [?i],
           executing := remove_nth k (executing c),
           frames := remove_nth k (frames c)\<rparr>"
        using i ps Inr by (simp add: resume_last)
      have c1: "promises (resume k c) = ps" by (simp add: r ps)
      have c2: "index (resume k c) < length ps \<or> index (resume k c) = 0" using idx by (simp add: r)
      have c3: "invoked (resume k c) = [0..<s] @ [1..<Suc (index (resume k c))]"
        by (simp add: r invk)
      have c5: "set (executing (resume k c)) \<subseteq> {..<length ps}"
        using rm' ex by (auto simp: r)
      have c6: "set (settled (resume k c)) \<subseteq> {..<length ps}"
        using st i by (auto simp: r)
      have c7: "set (invoked (resume k c)) \<subseteq> set (executing (resume k c)) \<union> set (settled (resume k c))"
        using cover rm by (auto simp: r)
      have c8: "length (executing (resume k c)) \<le> s" using bound k by (simp add: r length_remove_nth)
      have c9: "Suc (index (resume k c)) < length ps \<and> (\<forall>i\<in>set (settled (resume k c)). succeeded ps i)
        \<longrightarrow> length (executing (resume k c)) = s"
        using False by (simp add: r)
      have c10: "written (resume k c) = filter (succeeded ps) (settled (resume k c))"
        using wr succ by (simp add: r)
      have c11: "rejection (resume k c) = first_failure ps (observed (resume k c))"
        using rej by (simp add: r)
      have c12: "length (results (resume k c)) \<le> length ps"
        and c13: "\<forall>j\<in>set (written (resume k c)). j < length (results (resume k c))
          \<and> ps ! j = Inr (the (results (resume k c) ! j)) \<and> results (resume k c) ! j \<noteq> None"
        using store [OF Inr] by (simp_all add: r)
      show ?thesis
        unfolding invariant_def using c1 c2 c3 s c5 c6 c7 c8 c9 c10 c11 c12 c13 by blast
    qed
  qed
qed

lemma failures_resume:
  assumes inv: "invariant ps s c" and k: "k < length (executing c)" and f: "failures ps c"
  shows "failures ps (resume k c)"
proof -
  let ?i = "executing c ! k"
  have ps: "promises c = ps" and ex: "set (executing c) \<subseteq> {..<length ps}"
    by (insert inv [unfolded invariant_def]) (elim conjE, assumption)+
  from k ex have i: "?i < length ps" by (auto dest: nth_mem)
  have u: "\<forall>(f, i, e)\<in>set (unwinding c).
        i \<in> set (settled c) \<and> (\<exists>x. ps ! i = Inl x \<and> e = TaskFailure x)"
    and ob: "\<forall>i\<in>set (observed c). i \<in> set (settled c) \<and> \<not> succeeded ps i"
    and all: "\<forall>i\<in>set (settled c). \<not> succeeded ps i \<longrightarrow>
        i \<in> set (observed c) \<or> i \<in> (\<lambda>(f, i, e). i) ` set (unwinding c)"
    by (insert f [unfolded failures_def]) (elim conjE, assumption)+
  show ?thesis
  proof (cases "ps ! ?i")
    case (Inl e)
    then have r: "resume k c =
       c\<lparr>executing := remove_nth k (executing c),
         frames := remove_nth k (frames c),
         settled := settled c @ [?i],
         unwinding := unwinding c @ [(depth c k, ?i, TaskFailure e)]\<rparr>"
      using i ps by (simp add: resume_fail)
    show ?thesis
      unfolding failures_def r using u ob all Inl by (auto simp: succeeded_def)
  next
    case (Inr v)
    then have succ: "succeeded ps ?i" by (simp add: succeeded_def)
    have "unwinding (resume k c) = unwinding c \<and> observed (resume k c) = observed c
        \<and> settled (resume k c) = settled c @ [?i]"
      using i ps Inr
      by (cases "Suc (index c) < length ps") (simp_all add: resume_claim resume_last)
    then show ?thesis
      unfolding failures_def using u ob all succ by auto
  qed
qed

lemma unwind_cases:
  obtains (deliver) i e where "unwinding c ! j = (0, i, e)"
    | (frame) f i e where "unwinding c ! j = (Suc f, i, e)"
proof (cases "unwinding c ! j")
  case (fields f i e)
  then show ?thesis by (cases f) (auto intro: deliver frame)
qed

lemma failures_unwind:
  assumes j: "j < length (unwinding c)" and f: "failures ps c"
  shows "failures ps (unwind j c)"
proof -
  have u: "\<forall>(f, i, e)\<in>set (unwinding c).
        i \<in> set (settled c) \<and> (\<exists>x. ps ! i = Inl x \<and> e = TaskFailure x)"
    and ob: "\<forall>i\<in>set (observed c). i \<in> set (settled c) \<and> \<not> succeeded ps i"
    and all: "\<forall>i\<in>set (settled c). \<not> succeeded ps i \<longrightarrow>
        i \<in> set (observed c) \<or> i \<in> (\<lambda>(f, i, e). i) ` set (unwinding c)"
    by (insert f [unfolded failures_def]) (elim conjE, assumption)+
  from j have mem: "unwinding c ! j \<in> set (unwinding c)" by simp
  show ?thesis
  proof (cases c j rule: unwind_cases)
    case (deliver i e)
    with mem u have i: "i \<in> set (settled c)" "\<not> succeeded ps i"
      by (auto simp: succeeded_def)
    have sub: "set (remove_nth j (unwinding c)) \<subseteq> set (unwinding c)"
      by (rule set_remove_nth_subset)
    have sup: "set (unwinding c) \<subseteq> insert (0, i, e) (set (remove_nth j (unwinding c)))"
      using set_remove_nth_insert [OF j] deliver by simp
    have 1: "\<forall>(f, i, e)\<in>set (remove_nth j (unwinding c)).
        i \<in> set (settled c) \<and> (\<exists>x. ps ! i = Inl x \<and> e = TaskFailure x)"
      using u sub by blast
    have 2: "\<forall>i'\<in>set (observed c @ [i]). i' \<in> set (settled c) \<and> \<not> succeeded ps i'"
      using ob i by auto
    have 3: "\<forall>i'\<in>set (settled c). \<not> succeeded ps i' \<longrightarrow>
        i' \<in> set (observed c @ [i]) \<or> i' \<in> (\<lambda>(f, i, e). i) ` set (remove_nth j (unwinding c))"
    proof (intro ballI impI)
      fix i' assume "i' \<in> set (settled c)" "\<not> succeeded ps i'"
      with all have "i' \<in> set (observed c) \<or> i' \<in> (\<lambda>(f, i, e). i) ` set (unwinding c)" by blast
      then show "i' \<in> set (observed c @ [i]) \<or> i' \<in> (\<lambda>(f, i, e). i) ` set (remove_nth j (unwinding c))"
        using sup by force
    qed
    show ?thesis
      unfolding failures_def unwind_deliver [OF deliver] using 1 2 3 by simp
  next
    case (frame f i e)
    with mem u have i: "i \<in> set (settled c)" "\<exists>x. ps ! i = Inl x \<and> e = TaskFailure x"
      by auto
    have sub: "set ((unwinding c)[j := (f, i, e)]) \<subseteq> insert (f, i, e) (set (unwinding c))"
      by (rule set_update_subset_insert)
    have sup: "set (unwinding c) \<subseteq> insert (Suc f, i, e) (set ((unwinding c)[j := (f, i, e)]))"
      using set_update_insert [OF j] frame by simp
    have new: "(f, i, e) \<in> set ((unwinding c)[j := (f, i, e)])"
      using j by (simp add: set_update_memI)
    have 1: "\<forall>(f, i, e)\<in>set ((unwinding c)[j := (f, i, e)]).
        i \<in> set (settled c) \<and> (\<exists>x. ps ! i = Inl x \<and> e = TaskFailure x)"
      using u sub i by blast
    have 3: "\<forall>i'\<in>set (settled c). \<not> succeeded ps i' \<longrightarrow>
        i' \<in> set (observed c) \<or> i' \<in> (\<lambda>(f, i, e). i) ` set ((unwinding c)[j := (f, i, e)])"
    proof (intro ballI impI)
      fix i' assume "i' \<in> set (settled c)" "\<not> succeeded ps i'"
      with all have "i' \<in> set (observed c) \<or> i' \<in> (\<lambda>(f, i, e). i) ` set (unwinding c)" by blast
      then show "i' \<in> set (observed c) \<or> i' \<in> (\<lambda>(f, i, e). i) ` set ((unwinding c)[j := (f, i, e)])"
        using sup new by force
    qed
    show ?thesis
      unfolding failures_def unwind_frame [OF frame] using 1 ob 3 by simp
  qed
qed

lemma invariant_unwind:
  assumes inv: "invariant ps s c" and j: "j < length (unwinding c)" and f: "failures ps c"
  shows "invariant ps s (unwind j c)"
proof (cases c j rule: unwind_cases)
  case (deliver i e)
  have u: "\<forall>(f, i, e)\<in>set (unwinding c).
        i \<in> set (settled c) \<and> (\<exists>x. ps ! i = Inl x \<and> e = TaskFailure x)"
    by (insert f [unfolded failures_def]) (elim conjE, assumption)+
  from j have "unwinding c ! j \<in> set (unwinding c)" by simp
  with deliver u obtain x where x: "ps ! i = Inl x" "e = TaskFailure x" by auto
  have rej: "rejection c = first_failure ps (observed c)"
    by (insert inv [unfolded invariant_def]) (elim conjE, assumption)+
  have eq: "(case rejection c of None \<Rightarrow> Some e | Some r \<Rightarrow> Some r) = first_failure ps (observed c @ [i])"
    using rej x by (simp add: first_failure_snoc split: option.splits)
  let ?c = "c\<lparr>unwinding := remove_nth j (unwinding c),
       observed := observed c @ [i],
       rejection := (case rejection c of None \<Rightarrow> Some e | Some r \<Rightarrow> Some r)\<rparr>"
  have sel: "promises ?c = promises c" "index ?c = index c" "invoked ?c = invoked c"
    "executing ?c = executing c" "settled ?c = settled c" "written ?c = written c"
    "results ?c = results c" "observed ?c = observed c @ [i]"
    "rejection ?c = (case rejection c of None \<Rightarrow> Some e | Some r \<Rightarrow> Some r)"
    by simp_all
  show ?thesis
    unfolding unwind_deliver [OF deliver] invariant_def sel
    by (insert eq inv [unfolded invariant_def]) (elim conjE, intro conjI, assumption+)
next
  case (frame f i e)
  let ?c = "c\<lparr>unwinding := (unwinding c)[j := (f, i, e)]\<rparr>"
  have sel: "promises ?c = promises c" "index ?c = index c" "invoked ?c = invoked c"
    "executing ?c = executing c" "settled ?c = settled c" "written ?c = written c"
    "results ?c = results c" "observed ?c = observed c" "rejection ?c = rejection c"
    by simp_all
  show ?thesis
    unfolding unwind_frame [OF frame] invariant_def sel
    by (insert inv [unfolded invariant_def]) (elim conjE, intro conjI, assumption+)
qed

lemma step_cases:
  assumes "\<not> (executing c = [] \<and> unwinding c = [])"
  obtains (resume) k where "k < length (executing c)" "step sched c = resume k c"
    | (unwind) j where "j < length (unwinding c)" "step sched c = unwind j c"
proof -
  from assms have "(\<exists>k<length (executing c). step sched c = resume k c) \<or>
      (\<exists>j<length (unwinding c). step sched c = unwind j c)"
    by (auto simp: step_def split: list.splits)
  then show ?thesis using resume unwind by blast
qed

lemma invariant_step:
  assumes "invariant ps s c \<and> failures ps c" and "\<not> (executing c = [] \<and> unwinding c = [])"
  shows "invariant ps s (step sched c) \<and> failures ps (step sched c)"
proof (rule step_cases [OF assms(2), of sched])
  from assms(1) have inv: "invariant ps s c" and f: "failures ps c" by simp_all
  {
    fix k assume k: "k < length (executing c)" and eq: "step sched c = resume k c"
    from invariant_resume [OF inv k] failures_resume [OF inv k f]
    show ?thesis by (simp only: eq)
  }
  {
    fix j assume j: "j < length (unwinding c)" and eq: "step sched c = unwind j c"
    from invariant_unwind [OF inv j f] failures_unwind [OF j f]
    show ?thesis by (simp only: eq)
  }
qed

lemma drain_unfold:
  "\<not> (executing c = [] \<and> unwinding c = []) \<Longrightarrow> drain sched c = drain (tl sched) (step sched c)"
  "executing c = [] \<and> unwinding c = [] \<Longrightarrow> drain sched c = c"
proof -
  show "drain sched c = drain (tl sched) (step sched c)"
    if "\<not> (executing c = [] \<and> unwinding c = [])"
    by (subst drain.simps) (simp only: that if_False)
  show "drain sched c = c" if "executing c = [] \<and> unwinding c = []"
    by (subst drain.simps) (simp add: that)
qed

lemma trace_unfold:
  "\<not> (executing c = [] \<and> unwinding c = []) \<Longrightarrow>
     trace sched c = c # trace (tl sched) (step sched c)"
  "executing c = [] \<and> unwinding c = [] \<Longrightarrow> trace sched c = [c]"
proof -
  show "trace sched c = c # trace (tl sched) (step sched c)"
    if "\<not> (executing c = [] \<and> unwinding c = [])"
    by (subst trace.simps) (simp only: that if_False)
  show "trace sched c = [c]" if "executing c = [] \<and> unwinding c = []"
    by (subst trace.simps) (simp add: that)
qed

lemma fold_runOne:
  "m \<le> length (promises c) \<Longrightarrow>
   fold runOne [0..<m] c =
     c\<lparr>executing := executing c @ [0..<m], frames := frames c @ replicate m 0,
       invoked := invoked c @ [0..<m]\<rparr>"
  by (induction m) (simp_all add: runOne_def invoke_def replicate_append_same)

lemma start_new_Concurrency:
  "start w (new_Concurrency ps) =
     \<lparr>promises = ps, results = [], index = 0,
      executing = [0..<nat (min w (int (length ps)))],
      frames = replicate (nat (min w (int (length ps)))) 0,
      invoked = [0..<nat (min w (int (length ps)))],
      written = [], settled = [], unwinding = [], observed = [], rejection = None\<rparr>"
  by (simp add: start_def fold_runOne) (simp add: new_Concurrency_def)

lemma invariant_start:
  "invariant ps (nat (min w (int (length ps)))) (start w (new_Concurrency ps))
     \<and> failures ps (start w (new_Concurrency ps))"
  by (auto simp add: start_new_Concurrency invariant_def failures_def first_failure_def)

lemma drain_invariant:
  assumes "invariant ps s c \<and> failures ps c"
  shows "invariant ps s (drain sched c) \<and> failures ps (drain sched c)
    \<and> executing (drain sched c) = [] \<and> unwinding (drain sched c) = []"
  using assms
proof (induction sched c rule: drain.induct)
  case (1 sched c)
  show ?case
  proof (cases "executing c = [] \<and> unwinding c = []")
    case True
    with "1.prems" show ?thesis by (simp add: drain_unfold(2))
  next
    case False
    then have "invariant ps s (step sched c) \<and> failures ps (step sched c)"
      using "1.prems" by (rule invariant_step [rotated])
    with "1.IH" [OF False] show ?thesis by (simp only: drain_unfold(1) [OF False])
  qed
qed

lemma trace_invariant:
  assumes "invariant ps s c \<and> failures ps c"
  shows "\<forall>c'\<in>set (trace sched c). invariant ps s c'"
  using assms
proof (induction sched c rule: trace.induct)
  case (1 sched c)
  show ?case
  proof (cases "executing c = [] \<and> unwinding c = []")
    case True
    with "1.prems" show ?thesis by (simp add: trace_unfold(2))
  next
    case False
    then have "invariant ps s (step sched c) \<and> failures ps (step sched c)"
      using "1.prems" by (rule invariant_step [rotated])
    with "1.IH" [OF False] "1.prems" show ?thesis
      by (simp add: trace_unfold(1) [OF False])
  qed
qed

lemma last_trace: "last (trace sched c) = drain sched c"
proof (induction sched c rule: trace.induct)
  case (1 sched c)
  show ?case
  proof (cases "executing c = [] \<and> unwinding c = []")
    case True
    then show ?thesis by (simp add: trace_unfold(2) drain_unfold(2))
  next
    case False
    have ne: "trace (tl sched) (step sched c) \<noteq> []"
      by (subst trace.simps) (simp split: if_splits)
    with "1.IH" [OF False] show ?thesis
      by (simp add: trace_unfold(1) [OF False] drain_unfold(1) [OF False])
  qed
qed

lemma run_invariant:
  "invariant ps (nat (min w (int (length ps)))) (run w sched (new_Concurrency ps))"
  "failures ps (run w sched (new_Concurrency ps))"
  "executing (run w sched (new_Concurrency ps)) = []"
  "unwinding (run w sched (new_Concurrency ps)) = []"
proof -
  have "invariant ps (nat (min w (int (length ps)))) (drain sched (start w (new_Concurrency ps)))
      \<and> failures ps (drain sched (start w (new_Concurrency ps)))
      \<and> executing (drain sched (start w (new_Concurrency ps))) = []
      \<and> unwinding (drain sched (start w (new_Concurrency ps))) = []"
    by (rule drain_invariant) (rule invariant_start)
  then show "invariant ps (nat (min w (int (length ps)))) (run w sched (new_Concurrency ps))"
    and "failures ps (run w sched (new_Concurrency ps))"
    and "executing (run w sched (new_Concurrency ps)) = []"
    and "unwinding (run w sched (new_Concurrency ps)) = []"
    by (simp_all add: run_def)
qed

lemma finished_all_settled:
  assumes inv: "invariant ps s c" and fin: "executing c = []" and s: "1 \<le> s"
    and ok: "\<forall>i\<in>set (settled c). succeeded ps i"
  shows "Suc (index c) = length ps" and "{..<length ps} \<subseteq> set (settled c)"
proof -
  have idx: "index c < length ps \<or> index c = 0"
    and invk: "invoked c = [0..<s] @ [1..<Suc (index c)]"
    and sn: "s \<le> length ps"
    and cover: "set (invoked c) \<subseteq> set (executing c) \<union> set (settled c)"
    and live: "Suc (index c) < length ps \<and> (\<forall>i\<in>set (settled c). succeeded ps i)
        \<longrightarrow> length (executing c) = s"
    by (insert inv [unfolded invariant_def]) (elim conjE, assumption)+
  from live ok fin s have "\<not> Suc (index c) < length ps" by auto
  with idx s sn show n: "Suc (index c) = length ps" by auto
  have "set (invoked c) = {0..<s} \<union> {1..<length ps}"
    by (simp only: invk n set_append set_upt)
  moreover have "{..<length ps} \<subseteq> {0..<s} \<union> {1..<length ps}" using s by auto
  ultimately show "{..<length ps} \<subseteq> set (settled c)" using cover fin by auto
qed

lemma succeeded_map_Inr: "i < length vs \<Longrightarrow> succeeded (map Inr vs) i"
  by (simp add: succeeded_def)

lemma observed_settled:
  assumes "failures ps c" shows "\<forall>i\<in>set (observed c). i \<in> set (settled c) \<and> \<not> succeeded ps i"
  by (insert assms [unfolded failures_def]) (elim conjE, assumption)+

lemma run_all_succeed:
  assumes w: "1 \<le> w" and ne: "ps \<noteq> []" and ok: "\<forall>i<length ps. succeeded ps i"
  shows "rejection (run w sched (new_Concurrency ps)) = None"
    and "Suc (index (run w sched (new_Concurrency ps))) = length ps"
    and "invoked (run w sched (new_Concurrency ps)) = [0..<nat (min w (int (length ps)))] @ [1..<length ps]"
    and "length (results (run w sched (new_Concurrency ps))) = length ps"
    and "\<forall>i<length ps. ps ! i = Inr (the (results (run w sched (new_Concurrency ps)) ! i))
           \<and> results (run w sched (new_Concurrency ps)) ! i \<noteq> None"
proof -
  let ?c = "run w sched (new_Concurrency ps)"
  let ?s = "nat (min w (int (length ps)))"
  have inv: "invariant ps ?s ?c" and fl: "failures ps ?c" and fin: "executing ?c = []"
    by (rule run_invariant)+
  have st: "set (settled ?c) \<subseteq> {..<length ps}"
    and invk: "invoked ?c = [0..<?s] @ [1..<Suc (index ?c)]"
    and wr: "written ?c = filter (succeeded ps) (settled ?c)"
    and rej: "rejection ?c = first_failure ps (observed ?c)"
    and len: "length (results ?c) \<le> length ps"
    and res: "\<forall>i\<in>set (written ?c). i < length (results ?c) \<and> ps ! i = Inr (the (results ?c ! i)) \<and> results ?c ! i \<noteq> None"
    by (insert inv [unfolded invariant_def]) (elim conjE, assumption)+
  from st ok have all: "\<forall>i\<in>set (settled ?c). succeeded ps i" by auto
  with observed_settled [OF fl] have "\<forall>i\<in>set (observed ?c). succeeded ps i" by blast
  from w ne have s: "1 \<le> ?s" by (cases ps) auto
  from rej \<open>\<forall>i\<in>set (observed ?c). succeeded ps i\<close>
  show "rejection ?c = None" by (simp add: first_failure_None)
  have n: "Suc (index ?c) = length ps" and cover: "{..<length ps} \<subseteq> set (settled ?c)"
    using finished_all_settled [OF inv fin s all] by auto
  from n show "Suc (index ?c) = length ps" .
  from invk n show "invoked ?c = [0..<?s] @ [1..<length ps]" by simp
  from wr all have "written ?c = settled ?c" by simp
  with cover res have r: "\<forall>i<length ps. ps ! i = Inr (the (results ?c ! i)) \<and> results ?c ! i \<noteq> None"
    and l: "\<forall>i<length ps. i < length (results ?c)" by auto
  from r show "\<forall>i<length ps. ps ! i = Inr (the (results ?c ! i)) \<and> results ?c ! i \<noteq> None" .
  from l have "length ps - 1 < length (results ?c)" using ne by simp
  with len ne show "length (results ?c) = length ps" by (cases ps) auto
qed

lemma run_all_succeed_results:
  assumes w: "1 \<le> w" and ne: "ps \<noteq> []" and ok: "\<forall>i<length ps. succeeded ps i"
  shows "results (run w sched (new_Concurrency ps)) = map (\<lambda>p. Some (projr p)) ps"
proof (rule nth_equalityI)
  let ?c = "run w sched (new_Concurrency ps)"
  from run_all_succeed(4) [OF w ne ok]
  show l: "length (results ?c) = length (map (\<lambda>p. Some (projr p)) ps)" by simp
  fix i assume "i < length (results ?c)"
  with l have i: "i < length ps" by simp
  with run_all_succeed(5) [OF w ne ok, of sched]
  have "ps ! i = Inr (the (results ?c ! i))" "results ?c ! i \<noteq> None" by auto
  then have "Some (projr (ps ! i)) = results ?c ! i"
    by (metis option.collapse sum.sel(2))
  with i show "results ?c ! i = map (\<lambda>p. Some (projr p)) ps ! i" by simp
qed

lemma run_map_Inr:
  fixes vs :: "'a list"
  assumes w: "1 \<le> w" and ne: "vs \<noteq> []"
  shows "outcome (run w sched (new_Concurrency (map Inr vs :: ('e + 'a) list))) = Resolved (map Some vs)"
    and "invoked (run w sched (new_Concurrency (map Inr vs :: ('e + 'a) list)))
           = [0..<nat (min w (int (length vs)))] @ [1..<length vs]"
proof -
  let ?ps = "map Inr vs :: ('e + 'a) list"
  have ok: "\<forall>i<length ?ps. succeeded ?ps i" by (simp add: succeeded_map_Inr)
  from ne have ne': "?ps \<noteq> []" by simp
  have "results (run w sched (new_Concurrency ?ps)) = map Some vs"
    using run_all_succeed_results [OF w ne' ok, of sched] by (simp add: comp_def)
  with run_all_succeed(1) [OF w ne' ok, of sched]
  show "outcome (run w sched (new_Concurrency ?ps)) = Resolved (map Some vs)"
    by (simp add: outcome_def)
  from run_all_succeed(3) [OF w ne' ok, of sched]
  show "invoked (run w sched (new_Concurrency ?ps)) = [0..<nat (min w (int (length vs)))] @ [1..<length vs]"
    by simp
qed

lemma run_empty: "run w sched (new_Concurrency []) = new_Concurrency []"
  by (simp add: run_def start_new_Concurrency drain.simps) (simp add: new_Concurrency_def)

lemma count_list_upt: "count_list [a..<b] i = (if a \<le> i \<and> i < b then 1 else 0)"
  by (induction b) auto

lemma new_Concurrency_idle:
  "executing (new_Concurrency ps) = [] \<and> unwinding (new_Concurrency ps) = []"
  by (simp add: new_Concurrency_def)

subsection \<open>Results in task order\<close>

text \<open>
  Claim C1. For \<open>n\<close> tasks that each produce a value and every width between \<open>1\<close> and
  \<open>n\<close>, \<open>new Concurrency(tasks).run({batchSize: width})\<close> resolves to the vector of
  length \<open>n\<close> whose entry \<open>i\<close> is the value of task \<open>i\<close>, for every schedule, that is
  whatever the order in which the tasks complete. For the empty task list the run
  resolves to the empty vector and nothing happens at all: the state after the run is
  the state the constructor built.
\<close>

theorem run_results_in_task_order:
  fixes vs :: "'a list"
  shows "(1 \<le> width \<and> width \<le> int (length vs) \<longrightarrow>
      outcome (run width sched (new_Concurrency (map Inr vs :: ('e + 'a) list))) = Resolved (map Some vs)) \<and>
   run width sched (new_Concurrency ([] :: ('e + 'a) list)) = new_Concurrency [] \<and>
   outcome (run width sched (new_Concurrency ([] :: ('e + 'a) list))) = Resolved []"
proof (intro conjI impI)
  assume w: "1 \<le> width \<and> width \<le> int (length vs)"
  then have ne: "vs \<noteq> []" and w1: "1 \<le> width" by auto
  show "outcome (run width sched (new_Concurrency (map Inr vs :: ('e + 'a) list))) = Resolved (map Some vs)"
    by (rule run_map_Inr(1) [OF w1 ne])
next
  show e: "run width sched (new_Concurrency ([] :: ('e + 'a) list)) = new_Concurrency []" by (rule run_empty)
  show "outcome (run width sched (new_Concurrency ([] :: ('e + 'a) list))) = Resolved []"
    unfolding e by (simp add: outcome_def new_Concurrency_def)
qed

theorem run_results_in_task_order_witness:
  "(1::int) \<le> 2 \<and> (2::int) \<le> int (length [10, 20, 30 :: nat]) \<and>
   outcome (run 2 [1, 0, 1] (new_Concurrency (map Inr [10, 20, 30 :: nat] :: (unit + nat) list)))
     = Resolved [Some 10, Some 20, Some 30]"
  using run_results_in_task_order [of 2 "[10, 20, 30 :: nat]" "[1, 0, 1]", where ?'e = unit] by simp

subsection \<open>How often each task is invoked\<close>

text \<open>
  Claim C3, for task lists in which every task resolves. For \<open>n \<ge> 2\<close> tasks that
  each produce a value and a batch size \<open>b \<ge> 2\<close>, the tasks of the slots \<open>1\<close> to
  \<open>min(b, n) - 1\<close> are invoked exactly twice in a run (by their initial worker and
  again through the cursor, which starts at \<open>0\<close>), the task of slot \<open>0\<close> and those of
  the slots from \<open>min(b, n)\<close> on exactly once, for every schedule; the result vector
  is the one of the values all the same.
\<close>

theorem run_invokes_window_twice:
  fixes vs :: "'a list"
  assumes "2 \<le> length vs" and "2 \<le> b" and "i < length vs"
  shows "count_list (invoked (run b sched (new_Concurrency (map Inr vs :: ('e + 'a) list)))) i =
           (if 1 \<le> i \<and> int i < min b (int (length vs)) then 2 else 1) \<and>
         outcome (run b sched (new_Concurrency (map Inr vs :: ('e + 'a) list))) = Resolved (map Some vs)"
proof -
  let ?ps = "map Inr vs :: ('e + 'a) list"
  from assms have ne: "vs \<noteq> []" and b: "1 \<le> b" by auto
  have "invoked (run b sched (new_Concurrency ?ps)) = [0..<nat (min b (int (length vs)))] @ [1..<length vs]"
    by (rule run_map_Inr(2) [OF b ne])
  then have "count_list (invoked (run b sched (new_Concurrency ?ps))) i =
      (if i < nat (min b (int (length vs))) then 1 else 0) + (if 1 \<le> i \<and> i < length vs then 1 else 0)"
    by (simp only: count_list_append count_list_upt) simp
  moreover have "i < nat (min b (int (length vs))) \<longleftrightarrow> int i < min b (int (length vs))"
    by auto
  ultimately have "count_list (invoked (run b sched (new_Concurrency ?ps))) i =
           (if 1 \<le> i \<and> int i < min b (int (length vs)) then 2 else 1)"
    using assms by auto
  moreover have "outcome (run b sched (new_Concurrency ?ps)) = Resolved (map Some vs)"
    by (rule run_map_Inr(1) [OF b ne])
  ultimately show ?thesis by simp
qed


theorem run_invokes_window_twice_witness:
  "2 \<le> length [10, 20, 30 :: nat] \<and> (2::int) \<le> 2 \<and> (1::nat) < length [10, 20, 30 :: nat] \<and>
   count_list (invoked (run 2 [1, 0] (new_Concurrency (map Inr [10, 20, 30 :: nat] :: (unit + nat) list)))) 1 = 2 \<and>
   outcome (run 2 [1, 0] (new_Concurrency (map Inr [10, 20, 30 :: nat] :: (unit + nat) list)))
     = Resolved [Some 10, Some 20, Some 30]"
  using run_invokes_window_twice [of "[10, 20, 30 :: nat]" 2 1 "[1, 0]", where ?'e = unit] by simp

text \<open>
  Claim C3 as it is written speaks of every task list. A task that fails ends its
  worker before the cursor moves, so the counts are others then: with two tasks that
  both fail and batch size 2, the task of slot 1 is invoked once.
\<close>

theorem failing_window_slot_invoked_once:
  "invoked (run 2 [] (new_Concurrency [Inl (), Inl () :: unit + unit])) = [0, 1] \<and>
   count_list (invoked (run 2 [] (new_Concurrency [Inl (), Inl () :: unit + unit]))) 1 = 1"
  by code_simp

subsection \<open>The bound on the tasks in progress\<close>

text \<open>
  Claim C4. For every width \<open>\<ge> 1\<close>, every task list and every schedule, no state of
  the run has more than \<open>min(width, n)\<close> tasks in progress (invoked and not yet
  settled). The states are those of \<open>trace\<close>, whose last one is the state that \<open>run\<close>
  ends in.
\<close>

theorem run_bounded_in_flight:
  assumes "1 \<le> w"
  shows "(\<forall>c\<in>set (trace sched (start w (new_Concurrency ps))).
            int (length (executing c)) \<le> min w (int (length ps))) \<and>
         last (trace sched (start w (new_Concurrency ps))) = run w sched (new_Concurrency ps)"
proof
  show "\<forall>c\<in>set (trace sched (start w (new_Concurrency ps))).
            int (length (executing c)) \<le> min w (int (length ps))"
  proof
    fix c assume "c \<in> set (trace sched (start w (new_Concurrency ps)))"
    with trace_invariant [OF invariant_start]
    have "invariant ps (nat (min w (int (length ps)))) c" by blast
    then have "length (executing c) \<le> nat (min w (int (length ps)))"
      unfolding invariant_def by blast
    with assms show "int (length (executing c)) \<le> min w (int (length ps))" by auto
  qed
  show "last (trace sched (start w (new_Concurrency ps))) = run w sched (new_Concurrency ps)"
    by (simp add: last_trace run_def)
qed

theorem run_bounded_in_flight_witness:
  "(1::int) \<le> 2 \<and>
   map (\<lambda>c. length (executing c))
     (trace [1, 0] (start 2 (new_Concurrency [Inr 10, Inr 20, Inr 30 :: unit + nat]))) = [2, 2, 2, 1, 0] \<and>
   int (length (executing
     (trace [1, 0] (start 2 (new_Concurrency [Inr 10, Inr 20, Inr 30 :: unit + nat])) ! 1)))
     \<le> min 2 (int (length [Inr 10, Inr 20, Inr 30 :: unit + nat]))"
proof -
  let ?t = "trace [1, 0] (start 2 (new_Concurrency [Inr 10, Inr 20, Inr 30 :: unit + nat]))"
  have t: "map (\<lambda>c. length (executing c)) ?t = [2, 2, 2, 1, 0]"
    by code_simp
  have "length (map (\<lambda>c. length (executing c)) ?t) = 5"
    unfolding t by simp
  then have "1 < length ?t" by simp
  then have "?t ! 1 \<in> set ?t" by (rule nth_mem)
  moreover have h: "(1::int) \<le> 2" by simp
  ultimately have "int (length (executing (?t ! 1)))
     \<le> min 2 (int (length [Inr 10, Inr 20, Inr 30 :: unit + nat]))"
    using run_bounded_in_flight [OF h, of "[1, 0]" "[Inr 10, Inr 20, Inr 30 :: unit + nat]"]
    by blast
  with t h show ?thesis by blast
qed

subsection \<open>Failures\<close>



text \<open>
  Which failure is the first to reach \<open>Promise.all\<close> depends on how deep the failing
  workers are. With the tasks reject \<open>shallow\<close>, resolve, reject \<open>deep\<close> and width 2, let
  the second worker run slot 1, slot 1 again and slot 2, which fails two calls deep,
  and let slot 0 fail next: the rejection of slot 0 has no call to leave, it reaches
  \<open>Promise.all\<close> first and the run rejects with \<open>shallow\<close>, although slot 2 was seen
  to fail before. When slot 0
  settles only after the rejection of slot 2 has left its two calls, the run rejects
  with \<open>deep\<close>.
\<close>

lemma rejection_of_shallow_worker_first:
  "settled (run 2 [1, 1, 1, 0, 1] (new_Concurrency [Inl ''shallow'', Inr (20::nat), Inl ''deep'']))
     = [1, 1, 2, 0] \<and>
   observed (run 2 [1, 1, 1, 0, 1] (new_Concurrency [Inl ''shallow'', Inr (20::nat), Inl ''deep'']))
     = [0, 2] \<and>
   outcome (run 2 [1, 1, 1, 0, 1] (new_Concurrency [Inl ''shallow'', Inr (20::nat), Inl ''deep'']))
     = Rejected (TaskFailure ''shallow'') \<and>
   outcome (run 2 [1, 1, 1, 1, 1, 1] (new_Concurrency [Inl ''shallow'', Inr (20::nat), Inl ''deep'']))
     = Rejected (TaskFailure ''deep'')"
  by code_simp

subsection \<open>A batch size below one\<close>

text \<open>
  Claim C10. For a non-empty task list and a batch size \<open>b \<le> 0\<close>, the run resolves to
  the empty vector, without invoking any task and without an error: the only state of
  the run is the one the constructor built.
\<close>

theorem run_nonpositive_width:
  assumes "b \<le> 0" and "ps \<noteq> []"
  shows "outcome (run b sched (new_Concurrency ps)) = Resolved [] \<and>
         invoked (run b sched (new_Concurrency ps)) = [] \<and>
         trace sched (start b (new_Concurrency ps)) = [new_Concurrency ps]"
proof -
  from assms have z: "nat (min b (int (length ps))) = 0" by simp
  have s: "start b (new_Concurrency ps) = new_Concurrency ps"
    by (simp add: start_new_Concurrency z) (simp add: new_Concurrency_def)
  have r: "run b sched (new_Concurrency ps) = new_Concurrency ps"
    unfolding run_def s by (subst drain.simps) (simp add: new_Concurrency_idle)
  have t: "trace sched (start b (new_Concurrency ps)) = [new_Concurrency ps]"
    unfolding s by (subst trace.simps) (simp add: new_Concurrency_idle)
  show ?thesis unfolding r t by (simp add: outcome_def new_Concurrency_def)
qed

theorem run_nonpositive_width_witness:
  "(0::int) \<le> 0 \<and> [Inr 10, Inl ''Failed''] \<noteq> ([] :: (string + nat) list) \<and>
   outcome (run 0 [] (new_Concurrency [Inr (10::nat), Inl ''Failed''])) = Resolved [] \<and>
   invoked (run 0 [] (new_Concurrency [Inr (10::nat), Inl ''Failed''])) = []"
  using run_nonpositive_width [of 0 "[Inr (10::nat), Inl ''Failed'']" "[]"] by simp

subsection \<open>The slots of the initial window are run again\<close>

text \<open>
  Claim C2 says that no task is invoked more than once and no result slot written more
  than once. The code does otherwise. With two tasks and batch size 4 (the call made by
  \<open>Fetcher.run\<close>, and the input of the test "should fetch data and process lines", which
  expects two calls of the handler), the task of slot 1 is invoked twice and its slot
  is written twice: three invocations for two tasks.
\<close>

theorem window_slot_invoked_twice:
  "invoked (run 4 [] (new_Concurrency [Inr (), Inr () :: unit + unit])) = [0, 1, 1] \<and>
   written (run 4 [] (new_Concurrency [Inr (), Inr () :: unit + unit])) = [0, 1, 1] \<and>
   count_list (invoked (run 4 [] (new_Concurrency [Inr (), Inr () :: unit + unit]))) 1 = 2"
  by code_simp

subsection \<open>The cursor\<close>

text \<open>
  The cursor is \<open>0\<close> when the initial window has been claimed, whatever the width.
  From there on every resumption of a worker leaves it as it is or adds one to it,
  and it stays below the number of tasks.
\<close>

lemma cursor_initial: "index (start w (new_Concurrency ps)) = 0"
  by (simp add: start_new_Concurrency)

lemma cursor_step: "index (resume k c) = index c \<or> index (resume k c) = Suc (index c)"
  by (auto simp: resume_def invoke_def Let_def split: sum.splits)

lemma cursor_bounded:
  assumes "c \<in> set (trace sched (start w (new_Concurrency ps)))"
  shows "index c < length ps \<or> index c = 0"
proof -
  from trace_invariant [OF invariant_start] assms
  have "invariant ps (nat (min w (int (length ps)))) c" by blast
  then show ?thesis unfolding invariant_def by (elim conjE)
qed

text \<open>
  Claim C9 says that the cursor starts at the width of the initial window minus one.
  In the code the constructor sets it to \<open>0\<close> and the loop of \<open>run\<close> does not move it:
  with three tasks and width 2, slots 0 and 1 are in progress and the cursor is still
  \<open>0\<close>, so that the first worker to finish claims slot 1 a second time.
\<close>

theorem cursor_after_initial_window:
  "index (start 2 (new_Concurrency [Inr 10, Inr 20, Inr (30::nat) :: unit + nat])) = 0 \<and>
   executing (start 2 (new_Concurrency [Inr 10, Inr 20, Inr (30::nat) :: unit + nat])) = [0, 1] \<and>
   invoked (resume 0 (start 2 (new_Concurrency [Inr 10, Inr 20, Inr (30::nat) :: unit + nat]))) = [0, 1, 1]"
  by code_simp

section \<open>Properties of the retrying client\<close>

lemma get_loop_retry:
  assumes "i \<le> r" "retries this = int r"
    and "\<forall>j. i \<le> j \<and> j < r \<longrightarrow> isl (attempt url (fetch url (timeout this) j))"
  shows "get_loop this fetch url i con =
         get_loop this fetch url r
           (con\<lparr>fetches := fetches con + (r - i),
                warnings := warnings con @ map (\<lambda>j. Warning (int j + 1) (int r + 1) url) [i..<r]\<rparr>)"
  using assms
proof (induction "r - i" arbitrary: i con)
  case 0
  then show ?case by simp
next
  case (Suc d)
  then have i: "i < r" and d: "d = r - Suc i" by auto
  with Suc.prems obtain e where e: "attempt url (fetch url (timeout this) i) = Inl e"
    by (cases "attempt url (fetch url (timeout this) i)") auto
  have "get_loop this fetch url i con =
      get_loop this fetch url (Suc i)
        (con\<lparr>fetches := Suc (fetches con),
             warnings := warnings con @ [Warning (int i + 1) (int r + 1) url]\<rparr>)"
    using i e Suc.prems(2) by (subst get_loop.simps) simp
  also have "\<dots> = get_loop this fetch url r
           (con\<lparr>fetches := fetches con + (r - i),
                warnings := warnings con @ map (\<lambda>j. Warning (int j + 1) (int r + 1) url) [i..<r]\<rparr>)"
    using Suc.hyps(1) [OF d] i Suc.prems by (simp add: upt_conv_Cons)
  finally show ?case .
qed

lemma get_loop_last:
  assumes "retries this = int r"
  shows "get_loop this fetch url r con =
     (case attempt url (fetch url (timeout this) r) of
        Inr data \<Rightarrow> (Returned data, con\<lparr>fetches := Suc (fetches con)\<rparr>)
      | Inl error \<Rightarrow> (Threw error, con\<lparr>fetches := Suc (fetches con)\<rparr>))"
  using assms by (subst get_loop.simps) (simp split: sum.splits)

lemma get_after_failures:
  assumes "retries this = int r"
    and "\<forall>j<r. isl (attempt url (fetch url (timeout this) j))"
  shows "get this fetch url =
     (case attempt url (fetch url (timeout this) r) of
        Inr data \<Rightarrow> Returned data
      | Inl error \<Rightarrow> Threw error,
      \<lparr>fetches = r + 1, warnings = map (\<lambda>j. Warning (int j + 1) (int r + 1) url) [0..<r]\<rparr>)"
proof -
  have "get this fetch url =
      get_loop this fetch url r
        \<lparr>fetches = r, warnings = map (\<lambda>j. Warning (int j + 1) (int r + 1) url) [0..<r]\<rparr>"
    unfolding get_def using get_loop_retry [of 0 r this url fetch] assms by simp
  then show ?thesis
    by (simp add: get_loop_last [OF assms(1)] split: sum.splits)
qed

text \<open>
  Claim C5. For a client constructed with \<open>retries = r\<close>, \<open>r \<ge> 0\<close>: when the first
  \<open>r\<close> attempts fail and the next one succeeds, \<open>get\<close> calls \<open>fetch\<close> exactly \<open>r + 1\<close>
  times, warns exactly \<open>r\<close> times and returns the decoded body of the successful
  attempt; when every attempt fails, it calls \<open>fetch\<close> exactly \<open>r + 1\<close> times (and warns
  \<open>r\<close> times) and throws the error of the last attempt as it is. A response that is
  not \<open>ok\<close> makes the attempt fail, with the error of the status, like any other
  failure.
\<close>

theorem get_attempts_and_warnings:
  fixes fetch :: "('x, 'a) fetch"
  assumes "this = new_HttpClient \<lparr>opt_retries = Some (int r), opt_timeout = t\<rparr>"
  shows "((\<forall>j<r. isl (attempt url (fetch url (timeout this) j))) \<and>
          attempt url (fetch url (timeout this) r) = Inr body \<longrightarrow>
            fst (get this fetch url) = Returned body \<and>
            fetches (snd (get this fetch url)) = r + 1 \<and>
            length (warnings (snd (get this fetch url))) = r) \<and>
         ((\<forall>j\<le>r. isl (attempt url (fetch url (timeout this) j))) \<longrightarrow>
            (\<exists>e. attempt url (fetch url (timeout this) r) = Inl e \<and>
                 fst (get this fetch url) = Threw e) \<and>
            fetches (snd (get this fetch url)) = r + 1 \<and>
            length (warnings (snd (get this fetch url))) = r) \<and>
         (\<forall>response :: ('x, 'a) response. \<not> ok response \<longrightarrow>
            attempt url (Inr response)
              = Inl (HttpStatusError (status response) (statusText response) url))"
proof -
  from assms have r: "retries this = int r" by (simp add: new_HttpClient_def)
  show ?thesis
  proof (intro conjI impI allI)
    assume a: "(\<forall>j<r. isl (attempt url (fetch url (timeout this) j))) \<and>
          attempt url (fetch url (timeout this) r) = Inr body"
    then have g: "get this fetch url =
       (Returned body,
        \<lparr>fetches = r + 1, warnings = map (\<lambda>j. Warning (int j + 1) (int r + 1) url) [0..<r]\<rparr>)"
      using get_after_failures [OF r, of url fetch] by simp
    show "fst (get this fetch url) = Returned body" by (simp add: g)
    show "fetches (snd (get this fetch url)) = r + 1" by (simp add: g)
    show "length (warnings (snd (get this fetch url))) = r" by (simp add: g)
  next
    assume a: "\<forall>j\<le>r. isl (attempt url (fetch url (timeout this) j))"
    then obtain e where e: "attempt url (fetch url (timeout this) r) = Inl e"
      by (cases "attempt url (fetch url (timeout this) r)") auto
    from a have "\<forall>j<r. isl (attempt url (fetch url (timeout this) j))" by simp
    then have g: "get this fetch url =
       (Threw e,
        \<lparr>fetches = r + 1, warnings = map (\<lambda>j. Warning (int j + 1) (int r + 1) url) [0..<r]\<rparr>)"
      using get_after_failures [OF r, of url fetch] e by simp
    show "\<exists>e. attempt url (fetch url (timeout this) r) = Inl e \<and> fst (get this fetch url) = Threw e"
      using e g by simp
    show "fetches (snd (get this fetch url)) = r + 1" by (simp add: g)
    show "length (warnings (snd (get this fetch url))) = r" by (simp add: g)
  next
    fix response :: "('x, 'a) response"
    assume "\<not> ok response"
    then show "attempt url (Inr response)
              = Inl (HttpStatusError (status response) (statusText response) url)"
      by (simp add: attempt_def)
  qed
qed

theorem get_attempts_and_warnings_witness:
  "isl (attempt ''u'' (Inl ''Network error'' :: string + (string, nat) response)) \<and>
   isl (attempt ''u'' (Inr \<lparr>ok = False, status = 404, statusText = ''Not Found'', json = Inl []\<rparr>
                        :: string + (string, nat) response)) \<and>
   get (new_HttpClient \<lparr>opt_retries = Some 2, opt_timeout = None\<rparr>)
       (\<lambda>url t k. if k = 0 then Inl ''Network error''
                  else if k = 1 then Inr \<lparr>ok = False, status = 404, statusText = ''Not Found'', json = Inl []\<rparr>
                  else Inr \<lparr>ok = True, status = 200, statusText = ''OK'', json = Inr (42::nat)\<rparr>) ''u''
     = (Returned 42, \<lparr>fetches = 3, warnings = [Warning 1 3 ''u'', Warning 2 3 ''u'']\<rparr>) \<and>
   fst (get (new_HttpClient \<lparr>opt_retries = Some 1, opt_timeout = None\<rparr>)
       (\<lambda>url t k. Inl ''Network error'' :: string + (string, nat) response) ''u'')
     = Threw (Thrown ''Network error'')"
proof -
  let ?f = "\<lambda>(url::string) (t::int) (k::nat). if k = 0 then Inl ''Network error''
                  else if k = 1 then Inr \<lparr>ok = False, status = 404, statusText = ''Not Found'', json = Inl []\<rparr>
                  else Inr \<lparr>ok = True, status = 200, statusText = ''OK'', json = Inr (42::nat)\<rparr>"
  let ?g = "\<lambda>(url::string) (t::int) (k::nat). Inl ''Network error'' :: string + (string, nat) response"
  let ?c2 = "new_HttpClient \<lparr>opt_retries = Some (int 2), opt_timeout = None\<rparr>"
  let ?c1 = "new_HttpClient \<lparr>opt_retries = Some (int 1), opt_timeout = None\<rparr>"
  have 1: "isl (attempt ''u'' (Inl ''Network error'' :: string + (string, nat) response))"
    by (simp add: attempt_def)
  have 2: "isl (attempt ''u'' (Inr \<lparr>ok = False, status = 404, statusText = ''Not Found'', json = Inl []\<rparr>
                        :: string + (string, nat) response))"
    by (simp add: attempt_def)
  have h: "\<forall>j<2. isl (attempt ''u'' (?f ''u'' (timeout ?c2) j))"
    by (simp add: attempt_def less_Suc_eq numeral_2_eq_2)
  have b: "attempt ''u'' (?f ''u'' (timeout ?c2) 2) = Inr 42"
    by (simp add: attempt_def)
  from get_attempts_and_warnings [where this = "?c2" and r = 2 and t = None and url = "''u''" and fetch = "?f" and body = 42] h b
  have 3: "fst (get ?c2 ?f ''u'') = Returned 42" "fetches (snd (get ?c2 ?f ''u'')) = 3"
    "length (warnings (snd (get ?c2 ?f ''u''))) = 2"
    by simp_all
  have 4: "snd (get ?c2 ?f ''u'') = \<lparr>fetches = 3, warnings = [Warning 1 3 ''u'', Warning 2 3 ''u'']\<rparr>"
    by code_simp
  have h': "\<forall>j\<le>1. isl (attempt ''u'' (?g ''u'' (timeout ?c1) j))"
    by (simp add: attempt_def)
  from get_attempts_and_warnings [where this = "?c1" and r = 1 and t = None and url = "''u''" and fetch = "?g"] h'
  obtain e where "attempt ''u'' (?g ''u'' (timeout ?c1) 1) = Inl e" "fst (get ?c1 ?g ''u'') = Threw e"
    by auto
  then have 5: "fst (get ?c1 ?g ''u'') = Threw (Thrown ''Network error'')"
    by (simp add: attempt_def)
  from 3(1) 4 have 6: "get ?c2 ?f ''u'' = (Returned 42, \<lparr>fetches = 3, warnings = [Warning 1 3 ''u'', Warning 2 3 ''u'']\<rparr>)"
    by (simp add: prod_eq_iff)
  from 1 2 6 5 show ?thesis by simp
qed

section \<open>Properties of dataToLines\<close>

lemma localeCompare_le: "localeCompare a b \<le> 0 \<longleftrightarrow> a \<le> b"
  by (auto simp: localeCompare_def)

lemma insert_sorted_by_quote:
  "insert_sorted (\<lambda>(prevQuote, _) (nextQuote, _). localeCompare prevQuote nextQuote) x ys
     = insort_key fst x ys"
  by (induction ys) (auto simp: localeCompare_le split: prod.splits)

lemma sort_array_by_quote:
  "sort_array (\<lambda>(prevQuote, _) (nextQuote, _). localeCompare prevQuote nextQuote) xs
     = sort_key fst xs"
  by (induction xs) (simp_all add: sort_array_def insert_sorted_by_quote)

lemma dataToLines_sort_key:
  "dataToLines numberToString data options =
     map (\<lambda>(quote, rate).
            (quote, date data @ '','' @ (if falsy rate then [] else toString numberToString rate)))
       (sort_key fst (filter (\<lambda>(quote, _). quote \<in> set (quotes options)) (rates data)))"
  by (simp add: dataToLines_def sort_array_by_quote)

lemma map_fst_format: "map fst (map (\<lambda>(quote, rate). (quote, g rate)) xs) = map fst xs"
  by (induction xs) auto

lemma insort_key_fst_map:
  "insort_key fst (k, g r) (map (\<lambda>(k, r). (k, g r)) ys) = map (\<lambda>(k, r). (k, g r)) (insort_key fst (k, r) ys)"
  by (induction ys) auto

lemma sort_key_fst_map:
  "sort_key fst (map (\<lambda>(k, r). (k, g r)) xs) = map (\<lambda>(k, r). (k, g r)) (sort_key fst xs)"
  by (induction xs) (auto simp: insort_key_fst_map)

lemma filter_quote_map:
  "filter (\<lambda>(quote, _). quote \<in> Q) (map (\<lambda>(k, r). (k, g r)) xs)
     = map (\<lambda>(k, r). (k, g r)) (filter (\<lambda>(quote, _). quote \<in> Q) xs)"
  by (induction xs) auto

text \<open>
  Claim C7. \<open>dataToLines(payload, {quotes})\<close> returns the entries of \<open>rates\<close> whose key
  is in \<open>quotes\<close>, and only them, each as the pair of the key and the line of the date,
  a comma and the rate; the keys of the result are in ascending lexicographic order.
  The payload of 2024-01-01 with USD 1.0, EUR 0.85 and GBP 0.73 and the quotes EUR and
  USD give the two lines of the spec (given that the run time prints these two
  numbers as \<open>0.85\<close> and \<open>1\<close>). An empty list of quotes, or one that has no key of the
  payload, gives no line.
\<close>

theorem dataToLines_filtered_sorted:
  "sorted (map fst (dataToLines numberToString data options)) \<and>
   mset (dataToLines numberToString data options) =
     image_mset (\<lambda>(quote, rate).
                   (quote, date data @ '','' @ (if falsy rate then [] else toString numberToString rate)))
       (filter_mset (\<lambda>(quote, rate). quote \<in> set (quotes options)) (mset (rates data))) \<and>
   (numberToString (85 / 100) = ''0.85'' \<and> numberToString 1 = ''1'' \<longrightarrow>
      dataToLines numberToString
        \<lparr>date = ''2024-01-01'',
         rates = [(''USD'', Number 1), (''EUR'', Number (85 / 100)), (''GBP'', Number (73 / 100))]\<rparr>
        \<lparr>quotes = [''EUR'', ''USD'']\<rparr>
      = [(''EUR'', ''2024-01-01,0.85''), (''USD'', ''2024-01-01,1'')]) \<and>
   (quotes options = [] \<longrightarrow> dataToLines numberToString data options = []) \<and>
   (set (quotes options) \<inter> fst ` set (rates data) = {} \<longrightarrow>
      dataToLines numberToString data options = [])"
proof (intro conjI impI)
  show "sorted (map fst (dataToLines numberToString data options))"
    unfolding dataToLines_sort_key map_fst_format by (rule sorted_sort_key)
  show "mset (dataToLines numberToString data options) =
     image_mset (\<lambda>(quote, rate).
                   (quote, date data @ '','' @ (if falsy rate then [] else toString numberToString rate)))
       (filter_mset (\<lambda>(quote, rate). quote \<in> set (quotes options)) (mset (rates data)))"
    unfolding dataToLines_sort_key by simp
next
  assume "numberToString (85 / 100) = ''0.85'' \<and> numberToString 1 = ''1''"
  then show "dataToLines numberToString
        \<lparr>date = ''2024-01-01'',
         rates = [(''USD'', Number 1), (''EUR'', Number (85 / 100)), (''GBP'', Number (73 / 100))]\<rparr>
        \<lparr>quotes = [''EUR'', ''USD'']\<rparr>
      = [(''EUR'', ''2024-01-01,0.85''), (''USD'', ''2024-01-01,1'')]"
    by (simp add: dataToLines_sort_key falsy_def toString_def less_eq_char_def)
next
  assume "quotes options = []"
  then show "dataToLines numberToString data options = []"
    by (simp add: dataToLines_sort_key)
next
  assume d: "set (quotes options) \<inter> fst ` set (rates data) = {}"
  have "filter (\<lambda>(quote, _). quote \<in> set (quotes options)) (rates data) = []"
    unfolding filter_empty_conv using d by force
  then show "dataToLines numberToString data options = []"
    by (simp add: dataToLines_sort_key)
qed

theorem dataToLines_filtered_sorted_witness:
  "dataToLines (\<lambda>x. if x = 1 then ''1'' else ''0.85'')
        \<lparr>date = ''2024-01-01'',
         rates = [(''USD'', Number 1), (''EUR'', Number (85 / 100)), (''GBP'', Number (73 / 100))]\<rparr>
        \<lparr>quotes = [''EUR'', ''USD'']\<rparr>
      = [(''EUR'', ''2024-01-01,0.85''), (''USD'', ''2024-01-01,1'')] \<and>
   dataToLines (\<lambda>x. if x = 1 then ''1'' else ''0.85'')
        \<lparr>date = ''2024-01-01'', rates = [(''USD'', Number 1), (''EUR'', Number (85 / 100))]\<rparr>
        \<lparr>quotes = []\<rparr> = [] \<and>
   set [''GBP'', ''JPY''] \<inter> fst ` set [(''USD'', Number 1), (''EUR'', Number (85 / 100))] = {} \<and>
   dataToLines (\<lambda>x. if x = 1 then ''1'' else ''0.85'')
        \<lparr>date = ''2024-01-01'', rates = [(''USD'', Number 1), (''EUR'', Number (85 / 100))]\<rparr>
        \<lparr>quotes = [''GBP'', ''JPY'']\<rparr> = []"
proof -
  let ?f = "\<lambda>x::rat. if x = 1 then ''1'' else ''0.85''"
  let ?d = "\<lparr>date = ''2024-01-01'', rates = [(''USD'', Number 1), (''EUR'', Number (85 / 100))]\<rparr>"
  have f: "?f (85 / 100) = ''0.85'' \<and> ?f 1 = ''1''" by simp
  have d: "set [''GBP'', ''JPY''] \<inter> fst ` set [(''USD'', Number 1), (''EUR'', Number (85 / 100))] = {}"
    by simp
  from f dataToLines_filtered_sorted [where numberToString = "?f"]
  have 1: "dataToLines ?f
        \<lparr>date = ''2024-01-01'',
         rates = [(''USD'', Number 1), (''EUR'', Number (85 / 100)), (''GBP'', Number (73 / 100))]\<rparr>
        \<lparr>quotes = [''EUR'', ''USD'']\<rparr>
      = [(''EUR'', ''2024-01-01,0.85''), (''USD'', ''2024-01-01,1'')]"
    by blast
  from dataToLines_filtered_sorted [where numberToString = "?f" and data = "?d" and options = "\<lparr>quotes = []\<rparr>"]
  have 2: "dataToLines ?f ?d \<lparr>quotes = []\<rparr> = []" by simp
  from d dataToLines_filtered_sorted [where numberToString = "?f" and data = "?d"
      and options = "\<lparr>quotes = [''GBP'', ''JPY'']\<rparr>"]
  have 3: "dataToLines ?f ?d \<lparr>quotes = [''GBP'', ''JPY'']\<rparr> = []" by simp
  from 1 2 d 3 show ?thesis by blast
qed

text \<open>
  Claim C8. A rate that is exactly \<open>0\<close>, \<open>null\<close> or \<open>undefined\<close> is falsy, and the
  line of an entry with a falsy rate is the date followed by a comma and nothing
  else. So the lines of a payload are the same when its rates \<open>0\<close> are replaced by
  \<open>undefined\<close>; and the payload of the spec with USD \<open>null\<close> and EUR \<open>undefined\<close> gives
  the two lines that end in a comma.
\<close>

theorem dataToLines_falsy_rate:
  "falsy (Number 0) \<and> falsy Null \<and> falsy Undefined \<and>
   ((quote, rate) \<in> set (rates data) \<and> quote \<in> set (quotes options) \<and> falsy rate \<longrightarrow>
      (quote, date data @ '','') \<in> set (dataToLines numberToString data options)) \<and>
   dataToLines numberToString
     (data\<lparr>rates := map (\<lambda>(quote, rate). (quote, if rate = Number 0 then Undefined else rate))
                      (rates data)\<rparr>) options
     = dataToLines numberToString data options \<and>
   dataToLines numberToString
     \<lparr>date = ''2024-01-01'', rates = [(''USD'', Null), (''EUR'', Undefined)]\<rparr>
     \<lparr>quotes = [''EUR'', ''USD'']\<rparr>
     = [(''EUR'', ''2024-01-01,''), (''USD'', ''2024-01-01,'')]"
proof (intro conjI impI)
  show "falsy (Number 0)" "falsy Null" "falsy Undefined" by (simp_all add: falsy_def)
next
  assume a: "(quote, rate) \<in> set (rates data) \<and> quote \<in> set (quotes options) \<and> falsy rate"
  let ?fmt = "\<lambda>(quote, rate).
      (quote, date data @ '','' @ (if falsy rate then [] else toString numberToString rate))"
  from a have "(quote, rate) \<in> set (sort_key fst
      (filter (\<lambda>(quote, _). quote \<in> set (quotes options)) (rates data)))"
    by simp
  then have "?fmt (quote, rate) \<in> set (dataToLines numberToString data options)"
    unfolding dataToLines_sort_key set_map by (rule imageI)
  with a show "(quote, date data @ '','') \<in> set (dataToLines numberToString data options)"
    by simp
next
  show "dataToLines numberToString
     (data\<lparr>rates := map (\<lambda>(quote, rate). (quote, if rate = Number 0 then Undefined else rate))
                      (rates data)\<rparr>) options
     = dataToLines numberToString data options"
  proof -
    let ?h = "\<lambda>(quote, rate). (quote, if rate = Number 0 then Undefined else rate)"
    let ?fmt = "\<lambda>(quote, rate).
      (quote, date data @ '','' @ (if falsy rate then [] else toString numberToString rate))"
    have fmt: "map ?fmt (map ?h ys) = map ?fmt ys" for ys
      by (induction ys) (auto simp: falsy_def)
    have "dataToLines numberToString (data\<lparr>rates := map ?h (rates data)\<rparr>) options
        = map ?fmt (map ?h (sort_key fst
            (filter (\<lambda>(quote, _). quote \<in> set (quotes options)) (rates data))))"
      unfolding dataToLines_sort_key by (simp add: filter_quote_map sort_key_fst_map)
    also have "\<dots> = dataToLines numberToString data options"
      unfolding dataToLines_sort_key by (rule fmt)
    finally show ?thesis .
  qed
next
  show "dataToLines numberToString
     \<lparr>date = ''2024-01-01'', rates = [(''USD'', Null), (''EUR'', Undefined)]\<rparr>
     \<lparr>quotes = [''EUR'', ''USD'']\<rparr>
     = [(''EUR'', ''2024-01-01,''), (''USD'', ''2024-01-01,'')]"
    by (simp add: dataToLines_sort_key falsy_def less_eq_char_def)
qed

theorem dataToLines_falsy_rate_witness:
  "(''GBP'', Number 0) \<in> set [(''USD'', Number 1), (''GBP'', Number 0)] \<and>
   ''GBP'' \<in> set [''GBP'', ''USD''] \<and> falsy (Number 0) \<and>
   (''GBP'', ''2024-01-01,'') \<in> set (dataToLines (\<lambda>x. ''1'')
      \<lparr>date = ''2024-01-01'', rates = [(''USD'', Number 1), (''GBP'', Number 0)]\<rparr>
      \<lparr>quotes = [''GBP'', ''USD'']\<rparr>) \<and>
   dataToLines (\<lambda>x. ''1'')
      \<lparr>date = ''2024-01-01'', rates = [(''USD'', Number 1), (''GBP'', Number 0)]\<rparr>
      \<lparr>quotes = [''GBP'', ''USD'']\<rparr>
     = [(''GBP'', ''2024-01-01,''), (''USD'', ''2024-01-01,1'')]"
proof -
  let ?d = "\<lparr>date = ''2024-01-01'', rates = [(''USD'', Number 1), (''GBP'', Number 0)]\<rparr>"
  let ?o = "\<lparr>quotes = [''GBP'', ''USD'']\<rparr>"
  have m: "(''GBP'', Number 0) \<in> set (rates ?d)" "''GBP'' \<in> set (quotes ?o)" "falsy (Number 0)"
    by (simp_all add: falsy_def)
  with dataToLines_falsy_rate [where quote = "''GBP''" and rate = "Number 0" and data = "?d"
      and options = "?o" and numberToString = "\<lambda>x. ''1''"]
  have 1: "(''GBP'', date ?d @ '','') \<in> set (dataToLines (\<lambda>x. ''1'') ?d ?o)"
    by blast
  have 2: "dataToLines (\<lambda>x. ''1'') ?d ?o = [(''GBP'', ''2024-01-01,''), (''USD'', ''2024-01-01,1'')]"
    by code_simp
  from m 1 2 show ?thesis by simp
qed

end
